theory Spec2Isabelle
  imports Complex_Main "HOL-Library.Multiset"
begin

section \<open>Pattern matcher (src/pattern-matcher/pattern-matcher.ts)\<close>

text \<open>
  JavaScript strings are modelled as \<^typ>\<open>string\<close>. A \<^typ>\<open>char\<close> has eight bits, so
  the model covers the strings whose code units are below 256; of the four ECMAScript
  line terminators (LF, CR, U+2028, U+2029) the first two occur in such strings.

  \<open>matches\<close> keeps a cache from a pattern to the \<open>RegExp\<close> compiled from that same
  pattern. The compilation is a function of the pattern alone and the regular
  expression has no \<open>g\<close> or \<open>y\<close> flag, so \<open>test\<close> keeps no state and the cached
  object behaves as a freshly compiled one: the model compiles on every call.
\<close>

definition backslash :: char where
  "backslash = CHR 0x5C"

definition hasWildcard :: "string \<Rightarrow> bool" where
  \<comment> \<open>\<open>pattern.includes('*')\<close>\<close>
  "hasWildcard pattern = (CHR ''*'' \<in> set pattern)"

definition escapedChars :: "char list" where
  \<comment> \<open>the character class of the first \<open>replace\<close>: \<open>[.+?^${}()|[\]\\]\<close>\<close>
  "escapedChars = ''.+?^${}()|[]'' @ [backslash]"

definition escapeSpecial :: "string \<Rightarrow> string" where
  \<comment> \<open>\<open>pattern.replace(/[.+?^${}()|[\]\\]/g, '\\$&')\<close>: a backslash before each match\<close>
  "escapeSpecial s = concat (map (\<lambda>c. if c \<in> set escapedChars then [backslash, c] else [c]) s)"

definition replaceStars :: "string \<Rightarrow> string" where
  \<comment> \<open>\<open>.replace(/\*/g, '.*')\<close>\<close>
  "replaceStars s = concat (map (\<lambda>c. if c = CHR ''*'' then ''.*'' else [c]) s)"

definition regexSource :: "string \<Rightarrow> string" where
  \<comment> \<open>the argument of \<open>new RegExp\<close>: \<open>`^${regexPattern}$`\<close>\<close>
  "regexSource pattern = ''^'' @ replaceStars (escapeSpecial pattern) @ ''$''"

subsection \<open>The fragment of ECMAScript regular expressions that \<open>regexSource\<close> produces\<close>

text \<open>
  A regular expression without flags. The parser accepts the assertions \<open>^\<close> and \<open>$\<close>,
  the atom \<open>.\<close>, an identity escape of a syntax character, a pattern character (any
  character that is not a syntax character), and the greedy quantifier \<open>*\<close> after an
  atom. Everything else of the pattern grammar is outside the fragment and yields
  \<open>None\<close>; \<open>parseRegex_regexSource\<close> below shows that a compiled pattern never leaves
  the fragment.
\<close>

definition syntaxChars :: "char list" where
  \<comment> \<open>SyntaxCharacter of the ECMAScript pattern grammar\<close>
  "syntaxChars = ''^$.*+?()[]{}|'' @ [backslash]"

definition isLineTerminator :: "char \<Rightarrow> bool" where
  "isLineTerminator c = (c = CHR 0x0A \<or> c = CHR 0x0D)"

datatype atom = Lit char | Dot

datatype node = Bol | Eol | One atom | Star atom

fun quantified :: "atom \<Rightarrow> string \<Rightarrow> node \<times> string" where
  "quantified a [] = (One a, [])"
| "quantified a (c # cs) = (if c = CHR ''*'' then (Star a, cs) else (One a, c # cs))"

function parseRegex :: "string \<Rightarrow> node list option" where
  "parseRegex [] = Some []"
| "parseRegex (c # cs) =
     (if c = CHR ''^'' then map_option (Cons Bol) (parseRegex cs)
      else if c = CHR ''$'' then map_option (Cons Eol) (parseRegex cs)
      else if c = backslash then
        (case cs of
           [] \<Rightarrow> None
         | d # ds \<Rightarrow>
             if d \<in> set syntaxChars
             then map_option (Cons (fst (quantified (Lit d) ds)))
                    (parseRegex (snd (quantified (Lit d) ds)))
             else None)
      else if c = CHR ''.'' then
        map_option (Cons (fst (quantified Dot cs))) (parseRegex (snd (quantified Dot cs)))
      else if c \<in> set syntaxChars then None
      else map_option (Cons (fst (quantified (Lit c) cs)))
             (parseRegex (snd (quantified (Lit c) cs))))"
  by pat_completeness auto
termination
proof (relation "measure length")
  show "wf (measure length)" by simp
next
  fix c d :: char and cs ds :: string
  assume "cs = d # ds"
  then show "(snd (quantified (Lit d) ds), c # cs) \<in> measure length"
    by (cases ds) simp_all
next
  fix c :: char and cs :: string
  show "(snd (quantified Dot cs), c # cs) \<in> measure length"
    by (cases cs) simp_all
next
  fix c :: char and cs :: string
  show "(snd (quantified (Lit c) cs), c # cs) \<in> measure length"
    by (cases cs) simp_all
qed simp_all

fun atomMatches :: "atom \<Rightarrow> char \<Rightarrow> bool" where
  "atomMatches (Lit c) d = (c = d)"
| "atomMatches Dot d = (\<not> isLineTerminator d)"

text \<open>
  \<open>matchHere ns atStart s\<close>: the nodes \<open>ns\<close> match a prefix of the remaining input
  \<open>s\<close>; \<open>atStart\<close> says that no input lies before \<open>s\<close>. A backtracking matcher finds a
  match whenever one exists, so the order in which the alternatives of \<open>*\<close> are
  tried does not show in the result of \<open>test\<close>.
\<close>

fun matchHere :: "node list \<Rightarrow> bool \<Rightarrow> string \<Rightarrow> bool" where
  "matchHere [] atStart s = True"
| "matchHere (Bol # ns) atStart s = (atStart \<and> matchHere ns atStart s)"
| "matchHere (Eol # ns) atStart s = (s = [] \<and> matchHere ns atStart s)"
| "matchHere (One a # ns) atStart [] = False"
| "matchHere (One a # ns) atStart (c # cs) = (atomMatches a c \<and> matchHere ns False cs)"
| "matchHere (Star a # ns) atStart [] = matchHere ns atStart []"
| "matchHere (Star a # ns) atStart (c # cs) =
     ((atomMatches a c \<and> matchHere (Star a # ns) False cs) \<or> matchHere ns atStart (c # cs))"

fun searchFrom :: "node list \<Rightarrow> bool \<Rightarrow> string \<Rightarrow> bool" where
  \<comment> \<open>\<open>test\<close> tries every start position, from the left\<close>
  "searchFrom ns atStart [] = matchHere ns atStart []"
| "searchFrom ns atStart (c # cs) = (matchHere ns atStart (c # cs) \<or> searchFrom ns False cs)"

definition regexTest :: "string \<Rightarrow> string \<Rightarrow> bool option" where
  \<comment> \<open>\<open>new RegExp(source).test(s)\<close>; \<open>None\<close> when the source is outside the fragment\<close>
  "regexTest source s = map_option (\<lambda>ns. searchFrom ns True s) (parseRegex source)"

definition matches :: "string \<Rightarrow> string \<Rightarrow> bool" where
  \<comment> \<open>the last branch is never \<open>None\<close>: see \<open>regexTest_regexSource\<close>\<close>
  "matches pattern event =
     (if pattern = ''*'' then True
      else if pattern = event then True
      else (case regexTest (regexSource pattern) event of Some b \<Rightarrow> b | None \<Rightarrow> False))"

section \<open>Listener store (listener-store.ts)\<close>

text \<open>
  A \<open>symbol\<close> created by \<open>Symbol(...)\<close> differs from every symbol created before. The
  model numbers the symbols: the store records how many it has created (\<open>symbols\<close>)
  and the next one is that number. A caller may pass any symbol to the removal
  operations; a number that the store has not reached stands for a symbol made
  elsewhere. The field \<open>id\<close> of a listener is \<open>lid\<close> here (\<open>id\<close> is HOL's identity
  function), and the fields of \<open>ListenerInfo\<close> that share a name with a field of
  \<open>Listener\<close> carry the prefix \<open>info\<close>.

  The store keeps the handler of a listener and never calls it: the type of handlers
  is a parameter \<open>'h\<close> of the store. \<open>Date.now()\<close> in \<open>add\<close> is the argument \<open>now\<close>.
  The numbers that the store keeps are integers (\<^typ>\<open>int\<close>); \<open>executionCount\<close> starts
  at 0 and is only incremented (\<^typ>\<open>nat\<close>).

  \<open>avgDuration\<close> is the result of a division of JavaScript numbers, which does not fail:
  a zero divisor gives \<open>NaN\<close> for \<open>0 / 0\<close> and an infinity otherwise. The model of a
  number that a division returns keeps these values apart; \<open>Nearest x\<close> is the double
  nearest to the real number \<open>x\<close>, the rounding that the division applies to the
  exact quotient.
\<close>

type_synonym symbol = nat

datatype number = NaN | PosInfinity | NegInfinity | Nearest real

definition numberDivide :: "int \<Rightarrow> nat \<Rightarrow> number" where
  \<comment> \<open>\<open>a / b\<close> for an integer \<open>a\<close> and a count \<open>b\<close>\<close>
  "numberDivide a b =
     (if b = 0 then (if a = 0 then NaN else if 0 < a then PosInfinity else NegInfinity)
      else Nearest (real_of_int a / real b))"

record 'h listener =
  lid :: symbol
  handler :: 'h
  priority :: int
  once :: bool
  pattern :: string
  addedAt :: int
  executionCount :: nat
  totalDuration :: int

record subscribeOptions =
  priorityOpt :: "int option"
  onceOpt :: "bool option"

record listenerInfo =
  infoId :: symbol
  infoPriority :: int
  infoOnce :: bool
  infoPattern :: string
  infoAddedAt :: int
  infoExecutionCount :: nat
  avgDuration :: number

subsection \<open>\<open>Map\<close>: keys in insertion order\<close>

text \<open>
  A JavaScript \<open>Map\<close> iterates in the order in which its keys were first inserted;
  \<open>set\<close> on a present key keeps the key's place, \<open>delete\<close> removes the entry.
\<close>

type_synonym ('k, 'v) jsMap = "('k \<times> 'v) list"

fun mapGet :: "('k, 'v) jsMap \<Rightarrow> 'k \<Rightarrow> 'v option" where
  "mapGet [] k = None"
| "mapGet ((k', v) # m) k = (if k' = k then Some v else mapGet m k)"

fun mapSet :: "('k, 'v) jsMap \<Rightarrow> 'k \<Rightarrow> 'v \<Rightarrow> ('k, 'v) jsMap" where
  "mapSet [] k v = [(k, v)]"
| "mapSet ((k', v') # m) k v = (if k' = k then (k, v) # m else (k', v') # mapSet m k v)"

definition mapDelete :: "('k, 'v) jsMap \<Rightarrow> 'k \<Rightarrow> ('k, 'v) jsMap" where
  "mapDelete m k = filter (\<lambda>e. fst e \<noteq> k) m"

type_synonym 'h buckets = "(string, 'h listener list) jsMap"

record 'h store =
  exactMatches :: "'h buckets"
  wildcardPatterns :: "'h buckets"
  markedForRemoval :: "symbol set"
  symbols :: nat

definition createListenerStore :: "'h store" where
  "createListenerStore =
     \<lparr>exactMatches = [], wildcardPatterns = [], markedForRemoval = {}, symbols = 0\<rparr>"

definition getMapForPattern :: "string \<Rightarrow> 'h store \<Rightarrow> 'h buckets" where
  "getMapForPattern pat s = (if hasWildcard pat then wildcardPatterns s else exactMatches s)"

definition setMapForPattern :: "string \<Rightarrow> 'h buckets \<Rightarrow> 'h store \<Rightarrow> 'h store" where
  \<comment> \<open>a mutation of the map that \<open>getMapForPattern\<close> returned\<close>
  "setMapForPattern pat m s =
     (if hasWildcard pat then s\<lparr>wildcardPatterns := m\<rparr> else s\<lparr>exactMatches := m\<rparr>)"

subsection \<open>\<open>sortByPriority\<close>\<close>

text \<open>
  \<open>Array.prototype.sort\<close> is stable. The comparator orders by the pair (priority
  descending, \<open>addedAt\<close> ascending), a total preorder, so every stable sorting
  algorithm returns the same array; the model is insertion sort.
\<close>

definition compareListeners :: "'h listener \<Rightarrow> 'h listener \<Rightarrow> int" where
  "compareListeners a b =
     (if priority b \<noteq> priority a then priority b - priority a else addedAt a - addedAt b)"

fun insertSorted :: "'h listener \<Rightarrow> 'h listener list \<Rightarrow> 'h listener list" where
  "insertSorted x [] = [x]"
| "insertSorted x (y # ys) =
     (if compareListeners x y \<le> 0 then x # y # ys else y # insertSorted x ys)"

definition sortByPriority :: "'h listener list \<Rightarrow> 'h listener list" where
  "sortByPriority listeners = foldr insertSorted listeners []"

subsection \<open>Helpers of the store\<close>

definition hasId :: "symbol \<Rightarrow> 'h listener list \<Rightarrow> bool" where
  \<comment> \<open>\<open>listeners.findIndex((l) => l.id === listenerId) !== -1\<close>\<close>
  "hasId listenerId listeners = (listenerId \<in> set (map lid listeners))"

definition withoutId :: "symbol \<Rightarrow> 'h listener list \<Rightarrow> 'h listener list" where
  \<comment> \<open>\<open>listeners.filter((l) => l.id !== listenerId)\<close>\<close>
  "withoutId listenerId listeners = filter (\<lambda>l. lid l \<noteq> listenerId) listeners"

definition removeListenerById :: "'h buckets \<Rightarrow> symbol \<Rightarrow> string option \<times> 'h buckets" where
  \<comment> \<open>the first entry, in iteration order, whose array holds the id\<close>
  "removeListenerById m listenerId =
     (case find (\<lambda>e. hasId listenerId (snd e)) m of
        None \<Rightarrow> (None, m)
      | Some (pat, listeners) \<Rightarrow>
          (let updated = withoutId listenerId listeners
           in (Some pat, if updated = [] then mapDelete m pat else mapSet m pat updated)))"

definition getOrEmpty :: "'h buckets \<Rightarrow> string \<Rightarrow> 'h listener list" where
  \<comment> \<open>\<open>map.get(key) ?? []\<close>\<close>
  "getOrEmpty m k = (case mapGet m k of None \<Rightarrow> [] | Some listeners \<Rightarrow> listeners)"

definition collectAllListeners :: "'h buckets \<Rightarrow> (string \<times> symbol) list" where
  "collectAllListeners m = concat (map (\<lambda>(pat, listeners). map (\<lambda>l. (pat, lid l)) listeners) m)"

definition mapListeners :: "'h listener list \<Rightarrow> listenerInfo list" where
  "mapListeners listeners =
     map (\<lambda>l. \<lparr>infoId = lid l, infoPriority = priority l, infoOnce = once l,
               infoPattern = pattern l, infoAddedAt = addedAt l,
               infoExecutionCount = executionCount l,
               avgDuration = (if executionCount l > 0
                              then numberDivide (totalDuration l) (executionCount l)
                              else Nearest 0)\<rparr>) listeners"

fun addMatchingToResult ::
  "'h buckets \<Rightarrow> (string, listenerInfo list) jsMap \<Rightarrow> string option
     \<Rightarrow> (string, listenerInfo list) jsMap" where
  "addMatchingToResult [] result event = result"
| "addMatchingToResult ((pat, listeners) # m) result event =
     addMatchingToResult m
       (if (case event of None \<Rightarrow> True | Some e \<Rightarrow> matches pat e)
        then mapSet result pat (mapListeners listeners) else result) event"

fun removeMarkedFromMap :: "symbol set \<Rightarrow> 'h buckets \<Rightarrow> 'h buckets" where
  \<comment> \<open>each step deletes or resets the entry under iteration only\<close>
  "removeMarkedFromMap marked [] = []"
| "removeMarkedFromMap marked ((pat, listeners) # m) =
     (let updated = filter (\<lambda>l. lid l \<notin> marked) listeners
      in if updated = [] then removeMarkedFromMap marked m
         else if length updated \<noteq> length listeners
         then (pat, updated) # removeMarkedFromMap marked m
         else (pat, listeners) # removeMarkedFromMap marked m)"

fun recordRun :: "symbol \<Rightarrow> int \<Rightarrow> 'h listener list \<Rightarrow> 'h listener list" where
  \<comment> \<open>\<open>listeners.find((l) => l.id === listenerId)\<close>, then the two updates of that object\<close>
  "recordRun listenerId d [] = []"
| "recordRun listenerId d (l # ls) =
     (if lid l = listenerId
      then l\<lparr>executionCount := executionCount l + 1, totalDuration := totalDuration l + d\<rparr> # ls
      else l # recordRun listenerId d ls)"

fun findAndUpdate :: "symbol \<Rightarrow> int \<Rightarrow> 'h buckets \<Rightarrow> bool \<times> 'h buckets" where
  \<comment> \<open>of \<open>updateStats\<close>: stops at the first array that holds the id\<close>
  "findAndUpdate listenerId d [] = (False, [])"
| "findAndUpdate listenerId d ((pat, listeners) # m) =
     (if hasId listenerId listeners
      then (True, (pat, recordRun listenerId d listeners) # m)
      else (let (found, m') = findAndUpdate listenerId d m in (found, (pat, listeners) # m')))"

subsection \<open>The operations of the store\<close>

definition add ::
  "string \<Rightarrow> 'h \<Rightarrow> subscribeOptions \<Rightarrow> int \<Rightarrow> 'h store \<Rightarrow> symbol \<times> 'h store" where
  "add pat h options now s =
     (let listenerId = symbols s;
          listener = \<lparr>lid = listenerId, handler = h,
                      priority = (case priorityOpt options of None \<Rightarrow> 0 | Some p \<Rightarrow> p),
                      once = (case onceOpt options of None \<Rightarrow> False | Some b \<Rightarrow> b),
                      pattern = pat, addedAt = now, executionCount = 0, totalDuration = 0\<rparr>;
          listenerMap = getMapForPattern pat s;
          existing = getOrEmpty listenerMap pat;
          updated = sortByPriority (existing @ [listener])
      in (listenerId,
          setMapForPattern pat (mapSet listenerMap pat updated) (s\<lparr>symbols := Suc (symbols s)\<rparr>)))"

definition remove :: "string \<Rightarrow> symbol \<Rightarrow> 'h store \<Rightarrow> bool \<times> 'h store" where
  "remove pat listenerId s =
     (let listenerMap = getMapForPattern pat s;
          existing = getOrEmpty listenerMap pat;
          updated = withoutId listenerId existing
      in (length updated \<noteq> length existing,
          setMapForPattern pat
            (if updated = [] then mapDelete listenerMap pat else mapSet listenerMap pat updated) s))"

definition removeById :: "symbol \<Rightarrow> 'h store \<Rightarrow> string option \<times> 'h store" where
  \<comment> \<open>\<open>a ?? b\<close>: the wildcard map is searched only when the exact map gave \<open>undefined\<close>\<close>
  "removeById listenerId s =
     (case removeListenerById (exactMatches s) listenerId of
        (Some pat, m) \<Rightarrow> (Some pat, s\<lparr>exactMatches := m\<rparr>)
      | (None, m) \<Rightarrow>
          (let (r, w) = removeListenerById (wildcardPatterns s) listenerId
           in (r, s\<lparr>exactMatches := m, wildcardPatterns := w\<rparr>)))"

definition removeAll :: "string option \<Rightarrow> 'h store \<Rightarrow> (string \<times> symbol) list \<times> 'h store" where
  "removeAll event s =
     (case event of
        None \<Rightarrow>
          (collectAllListeners (exactMatches s) @ collectAllListeners (wildcardPatterns s),
           s\<lparr>exactMatches := [], wildcardPatterns := []\<rparr>)
      | Some e \<Rightarrow>
          (let listeners = getOrEmpty (exactMatches s) e
           in (map (\<lambda>l. (e, lid l)) listeners,
               s\<lparr>exactMatches := mapDelete (exactMatches s) e,
                 wildcardPatterns := mapDelete (wildcardPatterns s) e\<rparr>)))"

definition getMatching :: "string \<Rightarrow> 'h store \<Rightarrow> 'h listener list" where
  "getMatching event s =
     sortByPriority
       ((case mapGet (exactMatches s) event of None \<Rightarrow> [] | Some ls \<Rightarrow> ls) @
        concat (map snd (filter (\<lambda>e. matches (fst e) event) (wildcardPatterns s))))"

definition getAll :: "string option \<Rightarrow> 'h store \<Rightarrow> (string, listenerInfo list) jsMap" where
  "getAll event s =
     addMatchingToResult (wildcardPatterns s)
       (addMatchingToResult (exactMatches s) [] event) event"

definition updateStats :: "symbol \<Rightarrow> int \<Rightarrow> 'h store \<Rightarrow> 'h store" where
  "updateStats listenerId d s =
     (case findAndUpdate listenerId d (exactMatches s) of
        (True, m) \<Rightarrow> s\<lparr>exactMatches := m\<rparr>
      | (False, m) \<Rightarrow>
          s\<lparr>exactMatches := m,
            wildcardPatterns := snd (findAndUpdate listenerId d (wildcardPatterns s))\<rparr>)"

definition markForRemoval :: "symbol \<Rightarrow> 'h store \<Rightarrow> 'h store" where
  "markForRemoval listenerId s = s\<lparr>markedForRemoval := insert listenerId (markedForRemoval s)\<rparr>"

definition removeMarked :: "'h store \<Rightarrow> 'h store" where
  "removeMarked s =
     (if markedForRemoval s = {} then s
      else s\<lparr>exactMatches := removeMarkedFromMap (markedForRemoval s) (exactMatches s),
             wildcardPatterns := removeMarkedFromMap (markedForRemoval s) (wildcardPatterns s),
             markedForRemoval := {}\<rparr>)"

section \<open>Handler executor (handler-executor.ts)\<close>

text \<open>
  A handler is code of the application: it is called with a payload and acts on the
  world outside the bus, a type parameter \<open>'w\<close>. A call takes the world as it finds it
  and gives the world as the call leaves it, what the call returned, and the time in
  milliseconds that \<open>executeHandler\<close> measures with its two readings of \<open>Date.now()\<close>
  (for a promise the second reading is made when the promise settles). What a handler
  that returns a promise does to the world is taken as a whole, at the call. The handler
  itself does not call the bus while it runs; what the application does to the bus
  between two turns of an emission is an action of a run of the bus.

  The declared type of a handler is \<open>(payload) => Promise<void> | void\<close>, a structural
  type. \<open>executeHandler\<close> tests the returned value with
  \<open>result && typeof result === 'object' && 'then' in result\<close>, and \<open>execute\<close> tests
  what \<open>executeHandler\<close> returns with \<open>instanceof Promise\<close>. The model therefore tells
  apart:
    \<^item> \<open>Throws\<close>: the call throws;
    \<^item> \<open>Value\<close>: the call returns a value that fails the first test (\<open>undefined\<close>, a
      number, a function, an object without \<open>then\<close>);
    \<^item> \<open>NativePromise\<close>: an instance of \<open>Promise\<close>, whose \<open>then\<close> returns an instance
      of \<open>Promise\<close>;
    \<^item> \<open>ForeignPromise\<close>: a promise of another realm or of a library, which has
      \<open>then\<close>, is not an instance of \<open>Promise\<close> and whose \<open>then\<close> returns a promise of
      its own kind;
    \<^item> \<open>BrokenThen\<close>: an object whose \<open>then\<close> is not callable or throws when called;
    \<^item> \<open>EmptyThen\<close>: an object whose \<open>then\<close> returns \<open>undefined\<close> or \<open>null\<close> and never
      calls its arguments.
  The last two are outside the declared type, but the first test accepts them. A
  promise is fulfilled, is rejected, or stays pending for ever.
\<close>

datatype settlement = Resolves | Rejects | NeverSettles

datatype returned =
    Throws
  | Value
  | NativePromise settlement
  | ForeignPromise settlement
  | BrokenThen
  | EmptyThen

type_synonym ('p, 'w) listenerHandler = "'p \<Rightarrow> 'w \<Rightarrow> 'w \<times> returned \<times> int"

type_synonym ('p, 'w) busListener = "(('p, 'w) listenerHandler) listener"

record execResult =
  shouldRemove :: bool
  duration :: int

text \<open>
  What \<open>executeHandler\<close> returns: a result object; the native promise that the native
  \<open>then\<close> returned, which is fulfilled with the result of whichever of the two callbacks
  runs when the promise of the handler settles; what the \<open>then\<close> of a foreign promise
  returned, an object that is not an instance of \<open>Promise\<close> and has no property
  \<open>shouldRemove\<close>; or \<open>undefined\<close> or \<open>null\<close>.
\<close>

datatype handled =
    Result execResult
  | NativeThen settlement int
  | ForeignThen
  | Nullish

text \<open>
  \<open>execute\<close> is an \<open>async\<close> function. It runs until its loop reaches \<open>await result\<close>
  (\<open>Awaiting\<close>: the listener whose promise is awaited, how that promise settles, the
  duration that the callback will measure, the listeners that the loop has not reached,
  and \<open>listenersToRemove\<close> so far), until it returns (\<open>Completed\<close>), or until its body
  throws, which rejects its promise (\<open>Failed\<close>). \<open>emit\<close> is an \<open>async\<close> function as
  well: the promise that it returned is pending while \<open>execute\<close> or the \<open>await\<close> of
  \<open>emit\<close> itself has not gone on, and is then fulfilled or rejected.
\<close>

datatype ('p, 'w) progress =
    Awaiting "('p, 'w) busListener" settlement int "('p, 'w) busListener list" "symbol list"
  | Completed "symbol list"
  | Failed

datatype ('p, 'w) task =
    Pending 'p "('p, 'w) progress"
  | EmitFulfilled
  | EmitRejected

text \<open>
  The state on which the executor and the bus act: the store; the world; the callbacks
  that \<open>executeHandler\<close> has given to foreign promises which will be fulfilled, each
  with the id of its listener and the duration that it will measure (\<open>reactions\<close>); and
  the promises that \<open>emit\<close> has returned, in the order of the calls (\<open>tasks\<close>).

  The array given to \<open>execute\<close> and the arrays of the store hold the same listener
  objects. An object is identified by its id, and the update
  \<open>listener.executionCount++; listener.totalDuration += duration\<close> of an object is the
  update of the stored listener with that id, which is what \<open>updateStats\<close> does in a
  store whose ids are distinct; it leaves the store as it is when the listener is no
  longer stored.
\<close>

record ('p, 'w) eventBus =
  listenerStore :: "(('p, 'w) listenerHandler) store"
  world :: 'w
  reactions :: "(symbol \<times> int) list"
  tasks :: "('p, 'w) task list"

definition recordExecution :: "symbol \<Rightarrow> int \<Rightarrow> ('p, 'w) eventBus \<Rightarrow> ('p, 'w) eventBus" where
  \<comment> \<open>\<open>listener.executionCount++; listener.totalDuration += duration\<close>\<close>
  "recordExecution listenerId d b =
     b\<lparr>listenerStore := updateStats listenerId d (listenerStore b)\<rparr>"

definition executeHandler ::
  "'p \<Rightarrow> ('p, 'w) busListener \<Rightarrow> ('p, 'w) eventBus \<Rightarrow> ('p, 'w) eventBus \<times> handled" where
  "executeHandler payload listener b =
     (case handler listener payload (world b) of
        (w, Throws, d) \<Rightarrow> (b\<lparr>world := w\<rparr>, Result \<lparr>shouldRemove = False, duration = d\<rparr>)
      | (w, Value, d) \<Rightarrow>
          (recordExecution (lid listener) d (b\<lparr>world := w\<rparr>),
           Result \<lparr>shouldRemove = once listener, duration = d\<rparr>)
      | (w, NativePromise st, d) \<Rightarrow> (b\<lparr>world := w\<rparr>, NativeThen st d)
      | (w, ForeignPromise st, d) \<Rightarrow>
          (b\<lparr>world := w,
             reactions := (if st = Resolves then reactions b @ [(lid listener, d)]
                           else reactions b)\<rparr>,
           ForeignThen)
      | (w, BrokenThen, d) \<Rightarrow> (b\<lparr>world := w\<rparr>, Result \<lparr>shouldRemove = False, duration = d\<rparr>)
      | (w, EmptyThen, d) \<Rightarrow> (b\<lparr>world := w\<rparr>, Nullish))"

fun executeLoop ::
  "'p \<Rightarrow> ('p, 'w) busListener list \<Rightarrow> symbol list \<Rightarrow> ('p, 'w) eventBus
     \<Rightarrow> ('p, 'w) eventBus \<times> ('p, 'w) progress" where
  \<comment> \<open>the loop of \<open>execute\<close> from the head of an iteration to the next \<open>await\<close> or to the
      end: \<open>result instanceof Promise ? await result : result\<close>, then
      \<open>if (executionResult.shouldRemove) listenersToRemove.push(listener.id)\<close>, where
      reading a property of \<open>undefined\<close> or \<open>null\<close> throws\<close>
  "executeLoop payload [] acc b = (b, Completed acc)"
| "executeLoop payload (listener # rest) acc b =
     (case executeHandler payload listener b of
        (b', Result executionResult) \<Rightarrow>
          executeLoop payload rest
            (if shouldRemove executionResult then acc @ [lid listener] else acc) b'
      | (b', NativeThen st d) \<Rightarrow> (b', Awaiting listener st d rest acc)
      | (b', ForeignThen) \<Rightarrow> executeLoop payload rest acc b'
      | (b', Nullish) \<Rightarrow> (b', Failed))"

definition execute ::
  "'p \<Rightarrow> ('p, 'w) busListener list \<Rightarrow> ('p, 'w) eventBus
     \<Rightarrow> ('p, 'w) eventBus \<times> ('p, 'w) progress" where
  \<comment> \<open>the call of \<open>execute\<close>, up to its first \<open>await\<close> or its end\<close>
  "execute payload listeners b = executeLoop payload listeners [] b"

definition settle ::
  "'p \<Rightarrow> ('p, 'w) eventBus \<times> ('p, 'w) progress \<Rightarrow> ('p, 'w) eventBus \<times> ('p, 'w) progress" where
  \<comment> \<open>the awaited promise settles: the callback of \<open>executeHandler\<close> for that outcome
      runs, \<open>execute\<close> goes on after its \<open>await\<close> with the result of the callback and runs
      to its next \<open>await\<close> or to its end. A promise that never settles leaves \<open>execute\<close>
      where it is\<close>
  "settle payload x =
     (case snd x of
        Awaiting listener st d rest acc \<Rightarrow>
          (case st of
             Resolves \<Rightarrow>
               executeLoop payload rest (if once listener then acc @ [lid listener] else acc)
                 (recordExecution (lid listener) d (fst x))
           | Rejects \<Rightarrow> executeLoop payload rest acc (fst x)
           | NeverSettles \<Rightarrow> x)
      | Completed acc \<Rightarrow> x
      | Failed \<Rightarrow> x)"

section \<open>Event bus (eventbus.ts)\<close>

text \<open>
  \<open>emit\<close> calls \<open>getMatching\<close> and \<open>execute\<close> and then reaches
  \<open>await handlerExecutor.execute(...)\<close>, which gives control back to the caller of
  \<open>emit\<close> even when \<open>execute\<close> has already returned. The removals of the ids in
  \<open>listenersToRemove\<close> are in the continuation of that \<open>await\<close>: they run in a later turn,
  after whatever the application and other emissions have done to the bus in between.
  \<open>resume k\<close> is one turn of the \<open>k\<close>-th emission: \<open>execute\<close> goes on after the \<open>await\<close> of
  its loop, or \<open>emit\<close> goes on after its own \<open>await\<close>, where a rejected promise of
  \<open>execute\<close> throws and rejects the promise of \<open>emit\<close>. \<open>react n\<close> is the call of the
  \<open>n\<close>-th pending callback by its foreign promise.
\<close>

definition createEventBus :: "'w \<Rightarrow> ('p, 'w) eventBus" where
  "createEventBus w = \<lparr>listenerStore = createListenerStore, world = w, reactions = [], tasks = []\<rparr>"

definition removeIds :: "symbol list \<Rightarrow> 'h store \<Rightarrow> 'h store" where
  \<comment> \<open>\<open>for (const listenerId of listenersToRemove) listenerStore.removeById(listenerId)\<close>\<close>
  "removeIds ids s = fold (\<lambda>listenerId st. snd (removeById listenerId st)) ids s"

definition emit :: "string \<Rightarrow> 'p \<Rightarrow> ('p, 'w) eventBus \<Rightarrow> ('p, 'w) eventBus" where
  "emit event payload b =
     (let matchingListeners = getMatching event (listenerStore b);
          (b', running) = execute payload matchingListeners b
      in b'\<lparr>tasks := tasks b' @ [Pending payload running]\<rparr>)"

definition resume :: "nat \<Rightarrow> ('p, 'w) eventBus \<Rightarrow> ('p, 'w) eventBus" where
  "resume k b =
     (if k < length (tasks b) then
        (case tasks b ! k of
           Pending payload (Awaiting listener st d rest acc) \<Rightarrow>
             (let (b', running) = settle payload (b, Awaiting listener st d rest acc)
              in b'\<lparr>tasks := (tasks b')[k := Pending payload running]\<rparr>)
         | Pending payload (Completed listenersToRemove) \<Rightarrow>
             b\<lparr>listenerStore := removeIds listenersToRemove (listenerStore b),
               tasks := (tasks b)[k := EmitFulfilled]\<rparr>
         | Pending payload Failed \<Rightarrow> b\<lparr>tasks := (tasks b)[k := EmitRejected]\<rparr>
         | EmitFulfilled \<Rightarrow> b
         | EmitRejected \<Rightarrow> b)
      else b)"

definition react :: "nat \<Rightarrow> ('p, 'w) eventBus \<Rightarrow> ('p, 'w) eventBus" where
  "react n b =
     (if n < length (reactions b) then
        (case reactions b ! n of
           (listenerId, d) \<Rightarrow>
             (recordExecution listenerId d b)
               \<lparr>reactions := take n (reactions b) @ drop (Suc n) (reactions b)\<rparr>)
      else b)"

definition subscribe ::
  "string \<Rightarrow> ('p, 'w) listenerHandler \<Rightarrow> subscribeOptions \<Rightarrow> int \<Rightarrow> ('p, 'w) eventBus
     \<Rightarrow> (('p, 'w) eventBus \<Rightarrow> ('p, 'w) eventBus) \<times> ('p, 'w) eventBus" where
  \<comment> \<open>the returned function is the closure \<open>() => listenerStore.remove(pattern, listenerId)\<close>\<close>
  "subscribe pat h options now b =
     (let (listenerId, s') = add pat h options now (listenerStore b)
      in (\<lambda>b'. b'\<lparr>listenerStore := snd (remove pat listenerId (listenerStore b'))\<rparr>,
          b\<lparr>listenerStore := s'\<rparr>))"

definition off :: "symbol \<Rightarrow> ('p, 'w) eventBus \<Rightarrow> ('p, 'w) eventBus" where
  "off listenerId b = b\<lparr>listenerStore := snd (removeById listenerId (listenerStore b))\<rparr>"

definition offAll :: "string option \<Rightarrow> ('p, 'w) eventBus \<Rightarrow> ('p, 'w) eventBus" where
  \<comment> \<open>\<open>event ? String(event) : undefined\<close>: the empty string is falsy\<close>
  "offAll event b =
     b\<lparr>listenerStore :=
         snd (removeAll (case event of None \<Rightarrow> None | Some e \<Rightarrow> if e = [] then None else Some e)
                (listenerStore b))\<rparr>"

section \<open>Runs of the store and of the bus\<close>

text \<open>
  A run of the store is a sequence of calls of its operations. A run of the bus is a
  sequence of actions: a call of an operation of the store, by the bus (\<open>on\<close>,
  \<open>onPattern\<close> and \<open>once\<close> call \<open>add\<close>, the function that they return calls \<open>remove\<close>,
  \<open>off\<close> calls \<open>removeById\<close>, \<open>offAll\<close> calls \<open>removeAll\<close>) or by other code that holds the
  store; a call of \<open>emit\<close>, which runs until its first \<open>await\<close>; a later turn of an
  emission; the call of a callback by a foreign promise; and a change of the world by the
  application. JavaScript runs the turns of the emissions in an order of its own; a run
  may take them in any order, and between any other actions.
\<close>

datatype 'h operation =
    Add string 'h subscribeOptions int
  | Remove string symbol
  | RemoveById symbol
  | RemoveAll "string option"
  | UpdateStats symbol int
  | MarkForRemoval symbol
  | RemoveMarked

fun step :: "'h operation \<Rightarrow> 'h store \<Rightarrow> 'h store" where
  "step (Add pat h options now) s = snd (add pat h options now s)"
| "step (Remove pat listenerId) s = snd (remove pat listenerId s)"
| "step (RemoveById listenerId) s = snd (removeById listenerId s)"
| "step (RemoveAll event) s = snd (removeAll event s)"
| "step (UpdateStats listenerId d) s = updateStats listenerId d s"
| "step (MarkForRemoval listenerId) s = markForRemoval listenerId s"
| "step RemoveMarked s = removeMarked s"

definition runOps :: "'h operation list \<Rightarrow> 'h store \<Rightarrow> 'h store" where
  "runOps ops s = fold step ops s"

datatype ('p, 'w) action =
    Call "(('p, 'w) listenerHandler) operation"
  | Emit string 'p
  | Resume nat
  | React nat
  | Outside "'w \<Rightarrow> 'w"

fun act :: "('p, 'w) action \<Rightarrow> ('p, 'w) eventBus \<Rightarrow> ('p, 'w) eventBus" where
  "act (Call operation) b = b\<lparr>listenerStore := step operation (listenerStore b)\<rparr>"
| "act (Emit event payload) b = emit event payload b"
| "act (Resume k) b = resume k b"
| "act (React n) b = react n b"
| "act (Outside f) b = b\<lparr>world := f (world b)\<rparr>"

definition runBus :: "('p, 'w) action list \<Rightarrow> ('p, 'w) eventBus \<Rightarrow> ('p, 'w) eventBus" where
  "runBus acts b = fold act acts b"

section \<open>Notions used in the properties\<close>

text \<open>
  The definitions of this section are not part of the source: they name the listeners
  that a store holds, the invariants of the store and auxiliary terms of the proofs.
\<close>

definition bucketListeners :: "'h buckets \<Rightarrow> 'h listener list" where
  "bucketListeners m = concat (map snd m)"

definition storedListeners :: "'h store \<Rightarrow> 'h listener list" where
  "storedListeners s = bucketListeners (exactMatches s) @ bucketListeners (wildcardPatterns s)"

definition registration :: "'h listener \<Rightarrow> 'h listener" where
  \<comment> \<open>a listener without its counters: what \<open>add\<close> created\<close>
  "registration l = l\<lparr>executionCount := 0, totalDuration := 0\<rparr>"

definition bucketsOk :: "bool \<Rightarrow> 'h buckets \<Rightarrow> bool" where
  \<comment> \<open>keys are distinct; every array is non-empty, lies in the map that \<open>hasWildcard\<close>
      of its key selects, and holds listeners registered under its key\<close>
  "bucketsOk wild m =
     (distinct (map fst m) \<and>
      list_all (\<lambda>e. snd e \<noteq> [] \<and> hasWildcard (fst e) = wild \<and>
                     list_all (\<lambda>l. pattern l = fst e) (snd e)) m)"

definition storeInv :: "'h store \<Rightarrow> bool" where
  \<comment> \<open>the exact map holds the patterns without a wildcard, the wildcard map the others\<close>
  "storeInv s = (bucketsOk False (exactMatches s) \<and> bucketsOk True (wildcardPatterns s))"

definition idsOk :: "'h store \<Rightarrow> bool" where
  \<comment> \<open>the stored listeners have pairwise different ids, all created by this store\<close>
  "idsOk s =
     (distinct (map lid (storedListeners s)) \<and>
      list_all (\<lambda>l. lid l < symbols s) (storedListeners s))"

definition noOptions :: subscribeOptions where
  \<comment> \<open>the options object \<open>{}\<close>\<close>
  "noOptions = \<lparr>priorityOpt = None, onceOpt = None\<rparr>"

definition dropFrom :: "'h buckets \<Rightarrow> string \<Rightarrow> symbol \<Rightarrow> 'h buckets" where
  \<comment> \<open>the map after \<open>remove\<close> or \<open>removeListenerById\<close> has filtered the array of one key\<close>
  "dropFrom m k i =
     (let updated = withoutId i (getOrEmpty m k)
      in if updated = [] then mapDelete m k else mapSet m k updated)"

definition newListener ::
  "string \<Rightarrow> 'h \<Rightarrow> subscribeOptions \<Rightarrow> int \<Rightarrow> 'h store \<Rightarrow> 'h listener" where
  \<comment> \<open>the listener object that \<open>add\<close> creates\<close>
  "newListener pat h options now s =
     \<lparr>lid = symbols s, handler = h,
      priority = (case priorityOpt options of None \<Rightarrow> 0 | Some p \<Rightarrow> p),
      once = (case onceOpt options of None \<Rightarrow> False | Some b \<Rightarrow> b),
      pattern = pat, addedAt = now, executionCount = 0, totalDuration = 0\<rparr>"

definition regBuckets :: "'h buckets \<Rightarrow> 'h buckets" where
  \<comment> \<open>a map with the counters of its listeners reset\<close>
  "regBuckets m = map (\<lambda>e. (fst e, map registration (snd e))) m"

definition sameRegistrations :: "'h store \<Rightarrow> 'h store \<Rightarrow> bool" where
  \<comment> \<open>two stores that differ in counters and marks only\<close>
  "sameRegistrations s' s =
     (regBuckets (exactMatches s') = regBuckets (exactMatches s) \<and>
      regBuckets (wildcardPatterns s') = regBuckets (wildcardPatterns s) \<and>
      symbols s' = symbols s)"

definition wellFormed :: "'h store \<Rightarrow> bool" where
  \<comment> \<open>the invariant of the stores that the operations produce\<close>
  "wellFormed s = (storeInv s \<and> idsOk s)"

definition regs :: "'h store \<Rightarrow> 'h listener multiset" where
  \<comment> \<open>the registrations that a store holds\<close>
  "regs s = mset (map registration (storedListeners s))"

definition retired :: "symbol \<Rightarrow> 'h store \<Rightarrow> bool" where
  \<comment> \<open>an id that the store has created and no longer holds\<close>
  "retired i s = (i < symbols s \<and> i \<notin> set (map lid (storedListeners s)))"

definition registeredUnder :: "symbol \<Rightarrow> string \<Rightarrow> 'h store \<Rightarrow> bool" where
  \<comment> \<open>the store has created the id, for a listener of this pattern\<close>
  "registeredUnder i pat s =
     (i < symbols s \<and> list_all (\<lambda>l. lid l \<noteq> i \<or> pattern l = pat) (storedListeners s))"

definition matchingWildcards :: "string \<Rightarrow> 'h buckets \<Rightarrow> 'h listener list" where
  \<comment> \<open>the listeners that the loop of \<open>getMatching\<close> over the wildcard map pushes\<close>
  "matchingWildcards event m = concat (map snd (filter (\<lambda>e. matches (fst e) event) m))"

definition token :: "char \<Rightarrow> node" where
  \<comment> \<open>what one character of a pattern becomes in the compiled expression\<close>
  "token c = (if c = CHR ''*'' then Star Dot else One (Lit c))"

fun globMatch :: "string \<Rightarrow> string \<Rightarrow> bool" where
  \<comment> \<open>a description of the compiled matcher as a glob: the wildcard token stands for
      zero or more characters none of which is a line terminator, every other character of
      the pattern stands for itself\<close>
  "globMatch [] e = (e = [])"
| "globMatch (c # p) e =
     (if c = CHR ''*''
      then (\<exists>n \<in> {0..length e}. list_all (\<lambda>x. \<not> isLineTerminator x) (take n e) \<and>
                                  globMatch p (drop n e))
      else (case e of [] \<Rightarrow> False | d # e' \<Rightarrow> c = d \<and> globMatch p e'))"

definition before :: "'h listener \<Rightarrow> 'h listener \<Rightarrow> bool" where
  \<comment> \<open>the comparator does not put \<open>b\<close> in front of \<open>a\<close>\<close>
  "before a b = (compareListeners a b \<le> 0)"

definition returnedBy :: "('p, 'w) busListener \<Rightarrow> 'p \<Rightarrow> 'w \<Rightarrow> returned" where
  \<comment> \<open>what the handler of the listener returns when it is called in this world\<close>
  "returnedBy l payload w = fst (snd (handler l payload w))"

definition succeeds :: "returned \<Rightarrow> bool" where
  \<comment> \<open>the handler returns normally, or returns a promise that \<open>execute\<close> awaits and that
      is fulfilled\<close>
  "succeeds r = (r = Value \<or> r = NativePromise Resolves)"


definition goesOn :: "returned \<Rightarrow> bool" where
  \<comment> \<open>neither an awaited promise that never settles nor a \<open>then\<close> that returns nothing\<close>
  "goesOn r = (r \<noteq> NativePromise NeverSettles \<and> r \<noteq> EmptyThen)"

fun worldAfter :: "'p \<Rightarrow> ('p, 'w) busListener list \<Rightarrow> 'w \<Rightarrow> 'w" where
  \<comment> \<open>the world after the handlers of the listeners have been called one after another,
      each once, in the order of the list\<close>
  "worldAfter payload [] w = w"
| "worldAfter payload (l # ls) w = worldAfter payload ls (fst (handler l payload w))"

fun removedIn :: "'p \<Rightarrow> ('p, 'w) busListener list \<Rightarrow> 'w \<Rightarrow> symbol list" where
  \<comment> \<open>the ids of the listeners with \<open>once\<close> whose handler succeeds in the world in which
      it is called\<close>
  "removedIn payload [] w = []"
| "removedIn payload (l # ls) w =
     (if once l \<and> succeeds (returnedBy l payload w) then [lid l] else []) @
     removedIn payload ls (fst (handler l payload w))"


definition awaitedEmit :: "string \<Rightarrow> 'p \<Rightarrow> ('p, 'w) eventBus \<Rightarrow> ('p, 'w) eventBus" where
  \<comment> \<open>\<open>await bus.emit(event, payload)\<close> with nothing else done to the bus before the
      promise settles: the call, then as many turns of this emission as it can take\<close>
  "awaitedEmit event payload b =
     runBus (Emit event payload #
             replicate (Suc (length (getMatching event (listenerStore b)))) (Resume (length (tasks b)))) b"

section \<open>The compiled pattern\<close>

text \<open>
  The source that \<open>matches\<close> hands to \<open>RegExp\<close> always parses, into the assertion \<open>^\<close>,
  one node for each character of the pattern and the assertion \<open>$\<close>: every syntax
  character but \<open>*\<close> is escaped and stands for itself, and \<open>*\<close> has become \<open>.*\<close>. So
  \<open>matches\<close> is \<open>globMatch\<close> behind its two shortcuts.
\<close>

lemma replaceStars_append: "replaceStars (xs @ ys) = replaceStars xs @ replaceStars ys"
  by (simp add: replaceStars_def)

lemma escapeSpecial_Cons: "escapeSpecial (c # p) = escapeSpecial [c] @ escapeSpecial p"
  by (simp add: escapeSpecial_def)

lemma quantified_no_star: "s \<noteq> [] \<Longrightarrow> hd s \<noteq> CHR ''*'' \<Longrightarrow> quantified a s = (One a, s)"
  by (cases s) auto

lemma compiled_tail_no_star:
  "replaceStars (escapeSpecial p) @ ''$'' \<noteq> [] \<and>
   hd (replaceStars (escapeSpecial p) @ ''$'') \<noteq> CHR ''*''"
  by (cases p) (auto simp: replaceStars_def escapeSpecial_def backslash_def)

lemma escaped_are_syntax: "c \<in> set escapedChars \<Longrightarrow> c \<in> set syntaxChars"
  by (auto simp: escapedChars_def syntaxChars_def)

lemma syntax_are_escaped: "c \<in> set syntaxChars \<Longrightarrow> c \<noteq> CHR ''*'' \<Longrightarrow> c \<in> set escapedChars"
  by (auto simp: escapedChars_def syntaxChars_def)

lemma parse_compiled_tail:
  "parseRegex (replaceStars (escapeSpecial p) @ ''$'') = Some (map token p @ [Eol])"
proof (induction p)
  case Nil
  show ?case by (simp add: replaceStars_def escapeSpecial_def backslash_def)
next
  case (Cons c p)
  let ?rest = "replaceStars (escapeSpecial p) @ ''$''"
  have q: "quantified a ?rest = (One a, ?rest)" for a
    using compiled_tail_no_star [of p] by (simp add: quantified_no_star)
  consider (star) "c = CHR ''*''" | (esc) "c \<in> set escapedChars" | (plain) "c \<noteq> CHR ''*''" "c \<notin> set escapedChars"
    by blast
  then show ?case
  proof cases
    case star
    then have "replaceStars (escapeSpecial (c # p)) @ ''$'' = CHR ''.'' # CHR ''*'' # ?rest"
      by (simp add: replaceStars_def escapeSpecial_def escapedChars_def backslash_def)
    then show ?thesis using star Cons by (simp add: token_def backslash_def)
  next
    case esc
    then have ns: "c \<noteq> CHR ''*''" by (auto simp: escapedChars_def backslash_def)
    with esc have "replaceStars (escapeSpecial (c # p)) @ ''$'' = backslash # c # ?rest"
      by (simp add: replaceStars_def escapeSpecial_def backslash_def)
    then show ?thesis
      using ns Cons escaped_are_syntax [OF esc] q [of "Lit c"]
      by (simp add: token_def backslash_def)
  next
    case plain
    then have src: "replaceStars (escapeSpecial (c # p)) @ ''$'' = c # ?rest"
      by (simp add: replaceStars_def escapeSpecial_def)
    have "c \<notin> set syntaxChars" using plain syntax_are_escaped by blast
    moreover from plain have "c \<noteq> CHR ''^''" "c \<noteq> CHR ''$''" "c \<noteq> backslash" "c \<noteq> CHR ''.''"
      by (auto simp: escapedChars_def)
    ultimately show ?thesis
      using plain Cons q [of "Lit c"] unfolding src by (simp add: token_def)
  qed
qed

lemma parseRegex_regexSource:
  "parseRegex (regexSource p) = Some (Bol # map token p @ [Eol])"
  using parse_compiled_tail [of p] by (simp add: regexSource_def)

lemma searchFrom_Bol: "searchFrom (Bol # ns) False s = False"
  by (induction s) auto

lemma searchFrom_anchored: "searchFrom (Bol # ns) True s = matchHere ns True s"
  by (cases s) (auto simp: searchFrom_Bol)

lemma regexTest_regexSource:
  "regexTest (regexSource p) e = Some (matchHere (map token p @ [Eol]) True e)"
  by (simp add: regexTest_def parseRegex_regexSource searchFrom_anchored)

lemma matches_eq:
  "matches p e \<longleftrightarrow> p = ''*'' \<or> p = e \<or> matchHere (map token p @ [Eol]) True e"
  by (simp add: matches_def regexTest_regexSource)


lemma matchHere_noBol: "Bol \<notin> set ns \<Longrightarrow> matchHere ns a s = matchHere ns b s"
  by (induction ns a s arbitrary: b rule: matchHere.induct) auto

lemma Bex_upto_Suc: "(\<exists>n \<in> {0..Suc k}. P n) \<longleftrightarrow> P 0 \<or> (\<exists>m \<in> {0..k}. P (Suc m))"
proof
  assume "\<exists>n \<in> {0..Suc k}. P n"
  then obtain n where n: "n \<le> Suc k" "P n" by auto
  then show "P 0 \<or> (\<exists>m \<in> {0..k}. P (Suc m))" by (cases n) auto
next
  assume "P 0 \<or> (\<exists>m \<in> {0..k}. P (Suc m))"
  then show "\<exists>n \<in> {0..Suc k}. P n" by auto
qed

lemma matchHere_StarDot:
  assumes "Bol \<notin> set ns"
  shows "matchHere (Star Dot # ns) st s \<longleftrightarrow>
     (\<exists>n \<in> {0..length s}. list_all (\<lambda>x. \<not> isLineTerminator x) (take n s) \<and>
                           matchHere ns st (drop n s))"
proof (induction s arbitrary: st)
  case Nil
  then show ?case by simp
next
  case (Cons c cs)
  have "matchHere (Star Dot # ns) st (c # cs) \<longleftrightarrow>
      matchHere ns st (c # cs) \<or>
      (\<not> isLineTerminator c \<and> (\<exists>n \<in> {0..length cs}.
          list_all (\<lambda>x. \<not> isLineTerminator x) (take n cs) \<and> matchHere ns False (drop n cs)))"
    using Cons [of False] by auto
  also have "\<dots> \<longleftrightarrow>
      matchHere ns st (c # cs) \<or>
      (\<exists>n \<in> {0..length cs}. list_all (\<lambda>x. \<not> isLineTerminator x) (take (Suc n) (c # cs)) \<and>
          matchHere ns st (drop (Suc n) (c # cs)))"
    using matchHere_noBol [OF assms, of False _ st] by auto
  also have "\<dots> \<longleftrightarrow>
      (\<exists>n \<in> {0..length (c # cs)}. list_all (\<lambda>x. \<not> isLineTerminator x) (take n (c # cs)) \<and>
          matchHere ns st (drop n (c # cs)))"
    unfolding length_Cons Bex_upto_Suc by simp
  finally show ?case .
qed

lemma token_star: "token (CHR ''*'') = Star Dot"
  by (simp add: token_def)

lemma token_plain: "c \<noteq> CHR ''*'' \<Longrightarrow> token c = One (Lit c)"
  by (simp add: token_def)

lemma token_noBol: "Bol \<notin> set (map token p @ [Eol])"
  by (auto simp: token_def)

lemma matchHere_globMatch: "matchHere (map token p @ [Eol]) st e = globMatch p e"
proof (induction p arbitrary: st e)
  case Nil
  then show ?case by simp
next
  case (Cons c p)
  show ?case
  proof (cases "c = CHR ''*''")
    case True
    then show ?thesis
      using matchHere_StarDot [OF token_noBol, of p st e] Cons by (simp add: token_star)
  next
    case False
    then show ?thesis using Cons by (cases e) (simp_all add: token_plain)
  qed
qed

lemma matches_globMatch: "matches p e \<longleftrightarrow> p = ''*'' \<or> p = e \<or> globMatch p e"
  by (simp add: matches_eq matchHere_globMatch)

lemma globMatch_literal: "\<not> hasWildcard p \<Longrightarrow> globMatch p e \<longleftrightarrow> p = e"
  by (induction p arbitrary: e) (auto simp: hasWildcard_def split: list.splits)

lemma matches_literal: "\<not> hasWildcard p \<Longrightarrow> matches p e \<longleftrightarrow> p = e"
  by (auto simp: matches_globMatch globMatch_literal hasWildcard_def)

lemma matches_examples:
  "matches ''user:*'' ''user:login''" "\<not> matches ''user:*'' ''admin:login''"
  "matches ''*'' ''anything''" "matches ''a.b'' ''a.b''" "\<not> matches ''a.b'' ''aXb''"
  by code_simp+

section \<open>The pattern matcher on line terminators\<close>

text \<open>
  C6. The claim lets the wildcard token match zero or more arbitrary characters. The
  compiled expression is \<open>^user:.*$\<close> and \<open>.\<close> does not match a line terminator: on
  the event name \<open>user:\<close> followed by a line feed, \<open>matches('user:*', e)\<close> is false,
  while the first branch of \<open>matches\<close> makes \<open>matches('*', e)\<close> true on the same name.
\<close>

theorem matches_wildcard_line_feed:
  "\<not> matches ''user:*'' (''user:'' @ [CHR 0x0A]) \<and> matches ''*'' (''user:'' @ [CHR 0x0A])"
  by code_simp

section \<open>Facts about the maps\<close>

lemma set_mapSet: "set (mapSet m k v) \<subseteq> insert (k, v) (set m)"
  by (induction m k v rule: mapSet.induct) auto

lemma set_storedListeners:
  "set (storedListeners s) = (\<Union>e \<in> set (exactMatches s @ wildcardPatterns s). set (snd e))"
  by (auto simp: storedListeners_def bucketListeners_def)

lemma mapGet_Some_mem: "mapGet m k = Some v \<Longrightarrow> (k, v) \<in> set m"
  by (induction m k rule: mapGet.induct) (auto split: if_splits)

lemma mapGet_None_iff: "mapGet m k = None \<longleftrightarrow> k \<notin> fst ` set m"
  by (induction m k rule: mapGet.induct) auto

lemma mapGet_distinct: "distinct (map fst m) \<Longrightarrow> (k, v) \<in> set m \<Longrightarrow> mapGet m k = Some v"
  by (induction m k rule: mapGet.induct) (auto simp: rev_image_eqI)

lemma mapSet_same: "mapGet m k = Some v \<Longrightarrow> mapSet m k v = m"
  by (induction m k v rule: mapSet.induct) (auto split: if_splits)

lemma mapDelete_absent: "mapGet m k = None \<Longrightarrow> mapDelete m k = m"
  by (induction m k rule: mapGet.induct) (auto simp: mapDelete_def split: if_splits)

lemma keys_mapSet: "fst ` set (mapSet m k v) = insert k (fst ` set m)"
  by (induction m k v rule: mapSet.induct) auto

lemma distinct_mapSet: "distinct (map fst m) \<Longrightarrow> distinct (map fst (mapSet m k v))"
  by (induction m k v rule: mapSet.induct) (auto simp: keys_mapSet)

lemma distinct_mapDelete: "distinct (map fst m) \<Longrightarrow> distinct (map fst (mapDelete m k))"
  by (simp add: mapDelete_def distinct_map_filter)

lemma set_mapDelete: "set (mapDelete m k) = {e \<in> set m. fst e \<noteq> k}"
  by (auto simp: mapDelete_def)

lemma mset_mapSet:
  "mset (bucketListeners (mapSet m k v)) + mset (getOrEmpty m k) = mset (bucketListeners m) + mset v"
  by (induction m k v rule: mapSet.induct) (auto simp: bucketListeners_def getOrEmpty_def)

lemma mset_mapDelete:
  "distinct (map fst m) \<Longrightarrow>
   mset (bucketListeners (mapDelete m k)) + mset (getOrEmpty m k) = mset (bucketListeners m)"
proof (induction m)
  case Nil
  then show ?case by (simp add: bucketListeners_def getOrEmpty_def mapDelete_def)
next
  case (Cons e m)
  obtain k' v' where e: "e = (k', v')" by (cases e)
  show ?case
  proof (cases "k' = k")
    case True
    with Cons.prems e have "mapGet m k = None" by (simp add: mapGet_None_iff)
    then have "mapDelete m k = m" by (rule mapDelete_absent)
    then have "mapDelete (e # m) k = m" using True e by (simp add: mapDelete_def)
    then show ?thesis using True e by (simp add: bucketListeners_def getOrEmpty_def)
  next
    case False
    with Cons e show ?thesis by (simp add: bucketListeners_def getOrEmpty_def mapDelete_def)
  qed
qed

section \<open>Facts about sorting\<close>

lemma mset_insertSorted: "mset (insertSorted x ys) = add_mset x (mset ys)"
  by (induction ys) auto

lemma mset_sortByPriority: "mset (sortByPriority ls) = mset ls"
  by (induction ls) (auto simp: sortByPriority_def mset_insertSorted)

lemma set_sortByPriority: "set (sortByPriority ls) = set ls"
  using mset_sortByPriority [of ls] by (metis set_mset_mset)

lemma sortByPriority_Nil_iff: "sortByPriority ls = [] \<longleftrightarrow> ls = []"
  using mset_sortByPriority [of ls] by (metis mset_zero_iff)

section \<open>The invariant of a map\<close>

lemma bucketsOk_Nil: "bucketsOk w []"
  by (simp add: bucketsOk_def)

lemma bucketsOk_mapSet:
  assumes "bucketsOk w m" and "v \<noteq> []" and "hasWildcard k = w" and "\<forall>l \<in> set v. pattern l = k"
  shows "bucketsOk w (mapSet m k v)"
proof -
  have "distinct (map fst (mapSet m k v))"
    using assms(1) by (simp add: bucketsOk_def distinct_mapSet)
  moreover have "\<forall>e \<in> set (mapSet m k v). snd e \<noteq> [] \<and> hasWildcard (fst e) = w \<and>
      (\<forall>l \<in> set (snd e). pattern l = fst e)"
    using set_mapSet [of m k v] assms by (auto simp: bucketsOk_def list_all_iff)
  ultimately show ?thesis by (simp add: bucketsOk_def list_all_iff)
qed

lemma bucketsOk_mapDelete: "bucketsOk w m \<Longrightarrow> bucketsOk w (mapDelete m k)"
  by (auto simp: bucketsOk_def list_all_iff distinct_mapDelete set_mapDelete)

lemma bucketsOk_entry:
  "bucketsOk w m \<Longrightarrow> (k, ls) \<in> set m \<Longrightarrow>
   ls \<noteq> [] \<and> hasWildcard k = w \<and> (\<forall>l \<in> set ls. pattern l = k)"
  by (auto simp: bucketsOk_def list_all_iff)

lemma getOrEmpty_mem: "l \<in> set (getOrEmpty m k) \<Longrightarrow> \<exists>ls. (k, ls) \<in> set m \<and> l \<in> set ls"
  by (cases "mapGet m k") (auto simp: getOrEmpty_def dest: mapGet_Some_mem)

lemma bucketsOk_getOrEmpty: "bucketsOk w m \<Longrightarrow> l \<in> set (getOrEmpty m k) \<Longrightarrow> pattern l = k"
  using bucketsOk_entry getOrEmpty_mem by blast

lemma bucketsOk_pattern:
  "bucketsOk w m \<Longrightarrow> l \<in> set (bucketListeners m) \<Longrightarrow> hasWildcard (pattern l) = w"
  by (auto simp: bucketListeners_def dest: bucketsOk_entry)

lemma bucketsOk_in_entry:
  "bucketsOk w m \<Longrightarrow> l \<in> set (bucketListeners m) \<Longrightarrow> l \<in> set (getOrEmpty m (pattern l))"
proof -
  assume ok: "bucketsOk w m" and "l \<in> set (bucketListeners m)"
  then obtain k ls where e: "(k, ls) \<in> set m" and l: "l \<in> set ls"
    by (auto simp: bucketListeners_def)
  from bucketsOk_entry [OF ok e] l have "pattern l = k" by simp
  moreover from ok e have "mapGet m k = Some ls" by (simp add: bucketsOk_def mapGet_distinct)
  ultimately show ?thesis using l by (simp add: getOrEmpty_def)
qed

section \<open>What the operations do to one map\<close>

lemma mset_mapDelete_sub: "mset (bucketListeners (mapDelete m k)) \<subseteq># mset (bucketListeners m)"
proof (induction m)
  case Nil
  then show ?case by (simp add: mapDelete_def bucketListeners_def)
next
  case (Cons e m)
  then show ?case
    by (auto simp: mapDelete_def bucketListeners_def intro: subset_mset.add_mono
        subset_mset.order_trans [OF _ mset_subset_eq_add_right])
qed

lemma mset_mapSet_sub:
  assumes "mset v \<subseteq># mset (getOrEmpty m k)"
  shows "mset (bucketListeners (mapSet m k v)) \<subseteq># mset (bucketListeners m)"
proof -
  have "mset (bucketListeners (mapSet m k v)) + mset (getOrEmpty m k)
        \<subseteq># mset (bucketListeners m) + mset (getOrEmpty m k)"
    unfolding mset_mapSet using assms by (simp add: subset_mset.add_left_mono)
  then show ?thesis by simp
qed

lemma mset_withoutId: "mset (withoutId i ls) \<subseteq># mset ls"
  by (simp add: withoutId_def)

lemma withoutId_length: "length (withoutId i ls) \<noteq> length ls \<longleftrightarrow> hasId i ls"
proof (induction ls)
  case Nil
  then show ?case by (simp add: withoutId_def hasId_def)
next
  case (Cons l ls)
  have "length (filter (\<lambda>l. lid l \<noteq> i) ls) \<le> length ls" by (rule length_filter_le)
  then have "length (filter (\<lambda>l. lid l \<noteq> i) ls) \<noteq> Suc (length ls)" by linarith
  with Cons show ?case by (auto simp: withoutId_def hasId_def)
qed

lemma withoutId_absent: "\<not> hasId i ls \<Longrightarrow> withoutId i ls = ls"
  by (induction ls) (auto simp: withoutId_def hasId_def)

lemma withoutId_hasId: "\<not> hasId i (withoutId i ls)"
  by (auto simp: withoutId_def hasId_def)

lemma bucketsOk_dropFrom:
  assumes "bucketsOk w m" and "hasWildcard k = w"
  shows "bucketsOk w (dropFrom m k i)"
proof (cases "withoutId i (getOrEmpty m k) = []")
  case True
  then show ?thesis using assms by (simp add: dropFrom_def bucketsOk_mapDelete)
next
  case False
  have "\<forall>l \<in> set (withoutId i (getOrEmpty m k)). pattern l = k"
    using bucketsOk_getOrEmpty [OF assms(1)] by (auto simp: withoutId_def)
  with False assms show ?thesis by (simp add: dropFrom_def bucketsOk_mapSet)
qed

lemma mset_dropFrom: "mset (bucketListeners (dropFrom m k i)) \<subseteq># mset (bucketListeners m)"
  by (simp add: dropFrom_def Let_def mset_mapDelete_sub mset_mapSet_sub mset_withoutId)

lemma dropFrom_absent:
  assumes "bucketsOk w m" and "\<not> hasId i (getOrEmpty m k)"
  shows "dropFrom m k i = m"
proof (cases "mapGet m k")
  case None
  then show ?thesis by (simp add: dropFrom_def getOrEmpty_def withoutId_def mapDelete_absent)
next
  case (Some ls)
  then have "ls \<noteq> []" using bucketsOk_entry [OF assms(1) mapGet_Some_mem [OF Some]] by simp
  moreover have "withoutId i ls = ls" using assms(2) Some by (simp add: getOrEmpty_def withoutId_absent)
  ultimately show ?thesis using Some by (simp add: dropFrom_def getOrEmpty_def mapSet_same)
qed

lemma mapGet_mapSet: "mapGet (mapSet m k v) k = Some v"
  by (induction m k v rule: mapSet.induct) auto

lemma dropFrom_idem: "dropFrom (dropFrom m k i) k i = dropFrom m k i"
proof (cases "withoutId i (getOrEmpty m k) = []")
  case True
  then have "dropFrom m k i = mapDelete m k" by (simp add: dropFrom_def)
  moreover have "mapGet (mapDelete m k) k = None"
    by (auto simp: mapGet_None_iff set_mapDelete)
  ultimately show ?thesis
    by (simp add: dropFrom_def getOrEmpty_def withoutId_def mapDelete_absent)
next
  case False
  let ?u = "withoutId i (getOrEmpty m k)"
  have d: "dropFrom m k i = mapSet m k ?u" using False by (simp add: dropFrom_def)
  have g: "mapGet (mapSet m k ?u) k = Some ?u" by (rule mapGet_mapSet)
  have "withoutId i ?u = ?u" by (simp add: withoutId_def)
  with False g show ?thesis unfolding d by (simp add: dropFrom_def getOrEmpty_def mapSet_same)
qed

lemma remove_dropFrom:
  "remove pat i s =
     (hasId i (getOrEmpty (getMapForPattern pat s) pat),
      setMapForPattern pat (dropFrom (getMapForPattern pat s) pat i) s)"
  by (simp add: remove_def dropFrom_def Let_def withoutId_length)

lemma find_hasId_None: "find (\<lambda>e. hasId i (snd e)) m = None \<longleftrightarrow> i \<notin> lid ` set (bucketListeners m)"
  by (induction m) (auto simp: hasId_def bucketListeners_def)

lemma find_hasId_Some:
  "find (\<lambda>e. hasId i (snd e)) m = Some (k, ls) \<Longrightarrow> (k, ls) \<in> set m \<and> hasId i ls"
  by (induction m) (auto split: if_splits)

lemma removeListenerById_absent:
  "i \<notin> lid ` set (bucketListeners m) \<Longrightarrow> removeListenerById m i = (None, m)"
  using find_hasId_None [of i m] by (simp add: removeListenerById_def)

lemma removeListenerById_present:
  assumes "distinct (map fst m)" and "i \<in> lid ` set (bucketListeners m)"
  shows "\<exists>k. removeListenerById m i = (Some k, dropFrom m k i) \<and> hasId i (getOrEmpty m k)"
proof -
  from assms(2) obtain k ls where f: "find (\<lambda>e. hasId i (snd e)) m = Some (k, ls)"
    using find_hasId_None [of i m] by (cases "find (\<lambda>e. hasId i (snd e)) m") auto
  from find_hasId_Some [OF f] have mem: "(k, ls) \<in> set m" and h: "hasId i ls"
    by simp_all
  from mapGet_distinct [OF assms(1) mem] have g: "getOrEmpty m k = ls"
    by (simp add: getOrEmpty_def)
  have "removeListenerById m i = (Some k, dropFrom m k i)"
    using f g by (simp add: removeListenerById_def dropFrom_def Let_def)
  with g h show ?thesis by blast
qed

lemma removeListenerById_cases:
  assumes "distinct (map fst m)"
  shows "removeListenerById m i = (None, m) \<and> i \<notin> lid ` set (bucketListeners m) \<or>
         (\<exists>k. removeListenerById m i = (Some k, dropFrom m k i) \<and> hasId i (getOrEmpty m k)
              \<and> i \<in> lid ` set (bucketListeners m))"
  using removeListenerById_absent [of i m] removeListenerById_present [OF assms, of i]
  by blast

lemma mset_dropFrom_eq:
  assumes "distinct (map fst m)"
  shows "mset (bucketListeners (dropFrom m k i)) + mset (getOrEmpty m k) =
         mset (bucketListeners m) + mset (withoutId i (getOrEmpty m k))"
proof (cases "withoutId i (getOrEmpty m k) = []")
  case True
  then show ?thesis using mset_mapDelete [OF assms, of k] by (simp add: dropFrom_def)
next
  case False
  then show ?thesis using mset_mapSet [of m k "withoutId i (getOrEmpty m k)"]
    by (simp add: dropFrom_def)
qed

lemma dropFrom_removes:
  assumes keys: "distinct (map fst m)" and ids: "distinct (map lid (bucketListeners m))"
    and has: "hasId i (getOrEmpty m k)"
  shows "i \<notin> lid ` set (bucketListeners (dropFrom m k i))"
proof -
  let ?c = "\<lambda>xs. count (mset (map lid xs)) i"
  have "mset (map lid (bucketListeners (dropFrom m k i))) + mset (map lid (getOrEmpty m k)) =
        mset (map lid (bucketListeners m)) + mset (map lid (withoutId i (getOrEmpty m k)))"
    using arg_cong [OF mset_dropFrom_eq [OF keys, of k i], of "image_mset lid"] by simp
  then have eq: "?c (bucketListeners (dropFrom m k i)) + ?c (getOrEmpty m k) =
        ?c (bucketListeners m) + ?c (withoutId i (getOrEmpty m k))"
    by (metis count_union)
  have "?c (withoutId i (getOrEmpty m k)) = 0"
    by (auto simp: count_eq_zero_iff withoutId_def)
  moreover have "?c (bucketListeners m) \<le> 1"
    using ids distinct_count_atmost_1 [of "map lid (bucketListeners m)"]
    by (auto split: if_splits)
  moreover have "?c (getOrEmpty m k) \<ge> 1"
    using has by (simp add: hasId_def Suc_le_eq)
  ultimately have "?c (bucketListeners (dropFrom m k i)) = 0" using eq by linarith
  then show ?thesis by (simp add: count_eq_zero_iff)
qed

section \<open>Sub-multisets and distinctness\<close>

lemma distinct_mset_sub:
  assumes "mset ys \<subseteq># mset xs" and "distinct xs"
  shows "distinct ys"
proof -
  have "count (mset ys) a = (if a \<in> set ys then 1 else 0)" for a
  proof (cases "a \<in> set ys")
    case True
    then have "1 \<le> count (mset ys) a" by (simp add: Suc_le_eq)
    moreover have "count (mset ys) a \<le> count (mset xs) a"
      using assms(1) by (rule mset_subset_eq_count)
    moreover have "count (mset xs) a \<le> 1"
      using assms(2) distinct_count_atmost_1 [of xs] by (simp split: if_splits)
    ultimately have "count (mset ys) a = 1" by linarith
    then show ?thesis using True by simp
  next
    case False
    then show ?thesis by (simp add: count_eq_zero_iff)
  qed
  then show ?thesis unfolding distinct_count_atmost_1 by blast
qed

lemma distinct_map_sub:
  assumes "mset ys \<subseteq># mset xs" and "distinct (map f xs)"
  shows "distinct (map f ys)"
proof -
  have "mset (map f ys) \<subseteq># mset (map f xs)"
    using image_mset_subseteq_mono [OF assms(1), of f] by simp
  then show ?thesis using assms(2) by (rule distinct_mset_sub)
qed

section \<open>\<open>add\<close>\<close>

lemma add_newListener:
  "add pat h options now s =
     (symbols s,
      setMapForPattern pat
        (mapSet (getMapForPattern pat s) pat
           (sortByPriority (getOrEmpty (getMapForPattern pat s) pat @ [newListener pat h options now s])))
        (s\<lparr>symbols := Suc (symbols s)\<rparr>))"
  by (simp add: add_def newListener_def Let_def)

lemma add_symbols: "symbols (snd (add pat h options now s)) = Suc (symbols s)"
  by (simp add: add_newListener setMapForPattern_def)

lemma add_storeInv:
  assumes "storeInv s"
  shows "storeInv (snd (add pat h options now s))"
proof -
  let ?m = "getMapForPattern pat s"
  let ?v = "sortByPriority (getOrEmpty ?m pat @ [newListener pat h options now s])"
  have ok: "bucketsOk (hasWildcard pat) ?m"
    using assms by (simp add: storeInv_def getMapForPattern_def)
  have "\<forall>l \<in> set ?v. pattern l = pat"
    using bucketsOk_getOrEmpty [OF ok] by (auto simp: set_sortByPriority newListener_def)
  moreover have "?v \<noteq> []" by (simp add: sortByPriority_Nil_iff)
  ultimately have "bucketsOk (hasWildcard pat) (mapSet ?m pat ?v)"
    using ok by (simp add: bucketsOk_mapSet)
  then show ?thesis
    using assms by (auto simp: add_newListener storeInv_def setMapForPattern_def)
qed

lemma add_mset:
  "mset (storedListeners (snd (add pat h options now s))) =
   add_mset (newListener pat h options now s) (mset (storedListeners s))"
proof -
  let ?m = "getMapForPattern pat s"
  let ?v = "sortByPriority (getOrEmpty ?m pat @ [newListener pat h options now s])"
  have "mset (bucketListeners (mapSet ?m pat ?v)) + mset (getOrEmpty ?m pat) =
        mset (bucketListeners ?m) + mset ?v" by (rule mset_mapSet)
  then have "mset (bucketListeners (mapSet ?m pat ?v)) =
        add_mset (newListener pat h options now s) (mset (bucketListeners ?m))"
    by (simp add: mset_sortByPriority)
  then show ?thesis
    by (cases "hasWildcard pat")
      (simp_all add: add_newListener storedListeners_def setMapForPattern_def getMapForPattern_def)
qed

section \<open>\<open>remove\<close>\<close>

lemma remove_storeInv:
  assumes "storeInv s"
  shows "storeInv (snd (remove pat i s))"
proof -
  have "bucketsOk (hasWildcard pat) (getMapForPattern pat s)"
    using assms by (simp add: storeInv_def getMapForPattern_def)
  then have "bucketsOk (hasWildcard pat) (dropFrom (getMapForPattern pat s) pat i)"
    by (simp add: bucketsOk_dropFrom)
  then show ?thesis
    using assms by (auto simp: remove_dropFrom storeInv_def setMapForPattern_def)
qed

lemma remove_mset_sub:
  "mset (storedListeners (snd (remove pat i s))) \<subseteq># mset (storedListeners s)"
  using mset_dropFrom [of "getMapForPattern pat s" pat i]
  by (auto simp: remove_dropFrom storedListeners_def setMapForPattern_def getMapForPattern_def
      intro: subset_mset.add_mono)

lemma remove_symbols: "symbols (snd (remove pat i s)) = symbols s"
  by (simp add: remove_dropFrom setMapForPattern_def)

section \<open>\<open>removeById\<close>\<close>

lemma removeById_cases:
  assumes "storeInv s"
  shows "(\<exists>k. removeById i s = (Some k, s\<lparr>exactMatches := dropFrom (exactMatches s) k i\<rparr>)
              \<and> hasId i (getOrEmpty (exactMatches s) k)) \<or>
         (i \<notin> lid ` set (bucketListeners (exactMatches s)) \<and>
          (\<exists>k. removeById i s = (Some k, s\<lparr>wildcardPatterns := dropFrom (wildcardPatterns s) k i\<rparr>)
              \<and> hasId i (getOrEmpty (wildcardPatterns s) k))) \<or>
         (i \<notin> lid ` set (storedListeners s) \<and> removeById i s = (None, s))"
proof -
  have de: "distinct (map fst (exactMatches s))" and dw: "distinct (map fst (wildcardPatterns s))"
    using assms by (simp_all add: storeInv_def bucketsOk_def)
  from removeListenerById_cases [OF de, of i] show ?thesis
  proof
    assume a: "removeListenerById (exactMatches s) i = (None, exactMatches s) \<and>
      i \<notin> lid ` set (bucketListeners (exactMatches s))"
    from removeListenerById_cases [OF dw, of i] show ?thesis
    proof
      assume "removeListenerById (wildcardPatterns s) i = (None, wildcardPatterns s) \<and>
        i \<notin> lid ` set (bucketListeners (wildcardPatterns s))"
      with a show ?thesis by (auto simp: removeById_def storedListeners_def)
    next
      assume "\<exists>k. removeListenerById (wildcardPatterns s) i = (Some k, dropFrom (wildcardPatterns s) k i) \<and>
        hasId i (getOrEmpty (wildcardPatterns s) k) \<and> i \<in> lid ` set (bucketListeners (wildcardPatterns s))"
      with a show ?thesis by (auto simp: removeById_def)
    qed
  next
    assume "\<exists>k. removeListenerById (exactMatches s) i = (Some k, dropFrom (exactMatches s) k i) \<and>
        hasId i (getOrEmpty (exactMatches s) k) \<and> i \<in> lid ` set (bucketListeners (exactMatches s))"
    then show ?thesis by (auto simp: removeById_def)
  qed
qed

lemma removeById_storeInv:
  assumes "storeInv s"
  shows "storeInv (snd (removeById i s))"
proof -
  have e: "bucketsOk False (exactMatches s)" and w: "bucketsOk True (wildcardPatterns s)"
    using assms by (simp_all add: storeInv_def)
  from removeById_cases [OF assms, of i] show ?thesis
  proof (elim disjE exE conjE)
    fix k assume r: "removeById i s = (Some k, s\<lparr>exactMatches := dropFrom (exactMatches s) k i\<rparr>)"
      and h: "hasId i (getOrEmpty (exactMatches s) k)"
    from h obtain l where "l \<in> set (getOrEmpty (exactMatches s) k)" by (auto simp: hasId_def)
    then obtain ls where "(k, ls) \<in> set (exactMatches s)" using getOrEmpty_mem by blast
    then have "hasWildcard k = False" using bucketsOk_entry [OF e] by blast
    then have "bucketsOk False (dropFrom (exactMatches s) k i)" using e by (simp add: bucketsOk_dropFrom)
    with r w show ?thesis by (simp add: storeInv_def)
  next
    fix k assume r: "removeById i s = (Some k, s\<lparr>wildcardPatterns := dropFrom (wildcardPatterns s) k i\<rparr>)"
      and h: "hasId i (getOrEmpty (wildcardPatterns s) k)"
    from h obtain l where "l \<in> set (getOrEmpty (wildcardPatterns s) k)" by (auto simp: hasId_def)
    then obtain ls where "(k, ls) \<in> set (wildcardPatterns s)" using getOrEmpty_mem by blast
    then have "hasWildcard k = True" using bucketsOk_entry [OF w] by blast
    then have "bucketsOk True (dropFrom (wildcardPatterns s) k i)" using w by (simp add: bucketsOk_dropFrom)
    with r e show ?thesis by (simp add: storeInv_def)
  next
    assume "removeById i s = (None, s)"
    with assms show ?thesis by simp
  qed
qed

lemma removeById_mset_sub:
  assumes "storeInv s"
  shows "mset (storedListeners (snd (removeById i s))) \<subseteq># mset (storedListeners s)"
  using removeById_cases [OF assms, of i]
    mset_dropFrom [of "exactMatches s" _ i] mset_dropFrom [of "wildcardPatterns s" _ i]
  by (auto simp: storedListeners_def intro: subset_mset.add_mono)

lemma removeById_symbols:
  assumes "storeInv s"
  shows "symbols (snd (removeById i s)) = symbols s"
  using removeById_cases [OF assms, of i] by auto

lemma removeById_absent:
  assumes "i \<notin> lid ` set (storedListeners s)"
  shows "removeById i s = (None, s)"
  using assms removeListenerById_absent [of i "exactMatches s"]
    removeListenerById_absent [of i "wildcardPatterns s"]
  by (simp add: removeById_def storedListeners_def image_Un)

lemma removeById_removes:
  assumes inv: "storeInv s" and ids: "distinct (map lid (storedListeners s))"
  shows "i \<notin> lid ` set (storedListeners (snd (removeById i s)))"
proof -
  have de: "distinct (map fst (exactMatches s))" and dw: "distinct (map fst (wildcardPatterns s))"
    using inv by (simp_all add: storeInv_def bucketsOk_def)
  have ie: "distinct (map lid (bucketListeners (exactMatches s)))"
    and iw: "distinct (map lid (bucketListeners (wildcardPatterns s)))"
    and disj: "lid ` set (bucketListeners (exactMatches s)) \<inter>
               lid ` set (bucketListeners (wildcardPatterns s)) = {}"
    using ids by (simp_all add: storedListeners_def)
  from removeById_cases [OF inv, of i] show ?thesis
  proof (elim disjE exE conjE)
    fix k assume r: "removeById i s = (Some k, s\<lparr>exactMatches := dropFrom (exactMatches s) k i\<rparr>)"
      and h: "hasId i (getOrEmpty (exactMatches s) k)"
    from h have "i \<in> lid ` set (bucketListeners (exactMatches s))"
      using getOrEmpty_mem [of _ "exactMatches s" k]
      by (fastforce simp: hasId_def bucketListeners_def)
    with disj have "i \<notin> lid ` set (bucketListeners (wildcardPatterns s))" by blast
    with dropFrom_removes [OF de ie h] r show ?thesis by (simp add: storedListeners_def image_Un)
  next
    fix k assume r: "removeById i s = (Some k, s\<lparr>wildcardPatterns := dropFrom (wildcardPatterns s) k i\<rparr>)"
      and h: "hasId i (getOrEmpty (wildcardPatterns s) k)"
      and n: "i \<notin> lid ` set (bucketListeners (exactMatches s))"
    with dropFrom_removes [OF dw iw h] show ?thesis by (simp add: storedListeners_def image_Un)
  next
    assume "i \<notin> lid ` set (storedListeners s)" "removeById i s = (None, s)"
    then show ?thesis by simp
  qed
qed




section \<open>\<open>removeAll\<close>\<close>

lemma removeAll_storeInv: "storeInv s \<Longrightarrow> storeInv (snd (removeAll event s))"
  by (cases event) (simp_all add: removeAll_def storeInv_def bucketsOk_Nil bucketsOk_mapDelete)

lemma removeAll_mset_sub:
  "mset (storedListeners (snd (removeAll event s))) \<subseteq># mset (storedListeners s)"
  by (cases event)
    (simp_all add: removeAll_def storedListeners_def bucketListeners_def [of "[]"]
      mset_mapDelete_sub subset_mset.add_mono)

lemma removeAll_symbols: "symbols (snd (removeAll event s)) = symbols s"
  by (cases event) (simp_all add: removeAll_def)

section \<open>\<open>removeMarked\<close>\<close>

lemma filter_length_same: "length (filter P xs) = length xs \<Longrightarrow> filter P xs = xs"
proof (induction xs)
  case Nil
  then show ?case by simp
next
  case (Cons x xs)
  have "length (filter P xs) \<le> length xs" by (rule length_filter_le)
  then have "length (filter P xs) \<noteq> Suc (length xs)" by linarith
  with Cons show ?case by (auto split: if_splits)
qed

lemma removeMarkedFromMap_eq:
  "removeMarkedFromMap marked m =
     filter (\<lambda>e. snd e \<noteq> []) (map (\<lambda>e. (fst e, filter (\<lambda>l. lid l \<notin> marked) (snd e))) m)"
proof (induction m)
  case Nil
  then show ?case by simp
next
  case (Cons e m)
  obtain pat listeners where e: "e = (pat, listeners)" by (cases e)
  show ?case
    using Cons filter_length_same [of "\<lambda>l. lid l \<notin> marked" listeners]
    by (auto simp: e Let_def)
qed

lemma removeMarkedFromMap_ok:
  assumes "bucketsOk w m"
  shows "bucketsOk w (removeMarkedFromMap marked m)"
proof -
  let ?f = "\<lambda>e. (fst e, filter (\<lambda>l. lid l \<notin> marked) (snd e))"
  have "distinct (map fst (map ?f m))" using assms by (simp add: bucketsOk_def comp_def)
  then have "distinct (map fst (removeMarkedFromMap marked m))"
    unfolding removeMarkedFromMap_eq by (rule distinct_map_filter)
  moreover have "\<forall>e \<in> set (removeMarkedFromMap marked m).
      snd e \<noteq> [] \<and> hasWildcard (fst e) = w \<and> (\<forall>l \<in> set (snd e). pattern l = fst e)"
    using assms by (auto simp: removeMarkedFromMap_eq bucketsOk_def list_all_iff)
  ultimately show ?thesis by (simp add: bucketsOk_def list_all_iff)
qed

lemma removeMarkedFromMap_listeners:
  "bucketListeners (removeMarkedFromMap marked m) =
     filter (\<lambda>l. lid l \<notin> marked) (bucketListeners m)"
  by (induction m) (auto simp: removeMarkedFromMap_eq bucketListeners_def)

lemma removeMarkedFromMap_mset_sub:
  "mset (bucketListeners (removeMarkedFromMap marked m)) \<subseteq># mset (bucketListeners m)"
  by (simp add: removeMarkedFromMap_listeners)

lemma removeMarked_storeInv: "storeInv s \<Longrightarrow> storeInv (removeMarked s)"
  by (simp add: removeMarked_def storeInv_def removeMarkedFromMap_ok)

lemma removeMarked_mset_sub: "mset (storedListeners (removeMarked s)) \<subseteq># mset (storedListeners s)"
  by (simp add: removeMarked_def storedListeners_def removeMarkedFromMap_mset_sub subset_mset.add_mono)

lemma removeMarked_symbols: "symbols (removeMarked s) = symbols s"
  by (simp add: removeMarked_def)

section \<open>Operations that change counters only\<close>

lemma registration_fields [simp]:
  "lid (registration l) = lid l" "pattern (registration l) = pattern l"
  "once (registration l) = once l" "handler (registration l) = handler l"
  "priority (registration l) = priority l" "addedAt (registration l) = addedAt l"
  by (simp_all add: registration_def)

lemma registration_counters [simp]:
  "registration (l\<lparr>executionCount := c, totalDuration := d\<rparr>) = registration l"
  by (simp add: registration_def)

lemma recordRun_registration: "map registration (recordRun i d ls) = map registration ls"
  by (induction ls) auto

lemma recordRun_Nil_iff: "recordRun i d ls = [] \<longleftrightarrow> ls = []"
  by (cases ls) auto

lemma findAndUpdate_registration:
  "map (\<lambda>e. (fst e, map registration (snd e))) (snd (findAndUpdate i d m)) =
   map (\<lambda>e. (fst e, map registration (snd e))) m"
  by (induction i d m rule: findAndUpdate.induct)
    (auto simp: recordRun_registration split: prod.splits)

lemma bucketsOk_regBuckets: "bucketsOk w (regBuckets m) = bucketsOk w m"
  by (simp add: bucketsOk_def regBuckets_def list_all_iff comp_def)

lemma bucketListeners_regBuckets:
  "bucketListeners (regBuckets m) = map registration (bucketListeners m)"
  by (simp add: bucketListeners_def regBuckets_def map_concat comp_def)

lemma regBuckets_eq_ok:
  assumes "regBuckets m' = regBuckets m" and "bucketsOk w m"
  shows "bucketsOk w m'"
proof -
  have "bucketsOk w (regBuckets m')" unfolding assms(1) bucketsOk_regBuckets by (rule assms(2))
  then show ?thesis unfolding bucketsOk_regBuckets .
qed

lemma regBuckets_eq_listeners:
  assumes "regBuckets m' = regBuckets m"
  shows "map registration (bucketListeners m') = map registration (bucketListeners m)"
  using arg_cong [OF assms, of bucketListeners] unfolding bucketListeners_regBuckets .

lemma findAndUpdate_regBuckets: "regBuckets (snd (findAndUpdate i d m)) = regBuckets m"
  using findAndUpdate_registration [of i d m] by (simp add: regBuckets_def)

lemma sameRegistrations_storeInv:
  assumes "sameRegistrations s' s" and "storeInv s"
  shows "storeInv s'"
  unfolding storeInv_def
proof
  show "bucketsOk False (exactMatches s')"
    using assms by (rule_tac regBuckets_eq_ok [of _ "exactMatches s"]) (simp_all add: sameRegistrations_def storeInv_def)
  show "bucketsOk True (wildcardPatterns s')"
    using assms by (rule_tac regBuckets_eq_ok [of _ "wildcardPatterns s"]) (simp_all add: sameRegistrations_def storeInv_def)
qed

lemma sameRegistrations_listeners:
  assumes "sameRegistrations s' s"
  shows "map registration (storedListeners s') = map registration (storedListeners s)"
proof -
  have "map registration (bucketListeners (exactMatches s')) =
        map registration (bucketListeners (exactMatches s))"
    using assms by (intro regBuckets_eq_listeners) (simp add: sameRegistrations_def)
  moreover have "map registration (bucketListeners (wildcardPatterns s')) =
        map registration (bucketListeners (wildcardPatterns s))"
    using assms by (intro regBuckets_eq_listeners) (simp add: sameRegistrations_def)
  ultimately show ?thesis by (simp add: storedListeners_def)
qed

lemma sameRegistrations_ids:
  assumes "sameRegistrations s' s"
  shows "map lid (storedListeners s') = map lid (storedListeners s)"
proof -
  have "map lid (map registration (storedListeners s')) = map lid (map registration (storedListeners s))"
    using sameRegistrations_listeners [OF assms] by simp
  then show ?thesis by (simp add: comp_def)
qed

lemma updateStats_same: "sameRegistrations (updateStats i d s) s"
proof (cases "findAndUpdate i d (exactMatches s)")
  case (Pair found m)
  with findAndUpdate_regBuckets [of i d "exactMatches s"]
    findAndUpdate_regBuckets [of i d "wildcardPatterns s"]
  show ?thesis by (cases found) (simp_all add: updateStats_def sameRegistrations_def)
qed

lemma markForRemoval_same: "sameRegistrations (markForRemoval i s) s"
  by (simp add: markForRemoval_def sameRegistrations_def)

section \<open>The removals of \<open>emit\<close>\<close>

lemma removeIds_Nil [simp]: "removeIds [] s = s"
  by (simp add: removeIds_def)

lemma removeIds_Cons [simp]: "removeIds (i # ids) s = removeIds ids (snd (removeById i s))"
  by (simp add: removeIds_def)

lemma removeIds_storeInv: "storeInv s \<Longrightarrow> storeInv (removeIds ids s)"
  by (induction ids arbitrary: s) (simp_all add: removeById_storeInv)

lemma removeIds_symbols: "storeInv s \<Longrightarrow> symbols (removeIds ids s) = symbols s"
  by (induction ids arbitrary: s) (simp_all add: removeById_storeInv removeById_symbols)

lemma removeIds_mset_sub:
  "storeInv s \<Longrightarrow> mset (storedListeners (removeIds ids s)) \<subseteq># mset (storedListeners s)"
proof (induction ids arbitrary: s)
  case Nil
  then show ?case by simp
next
  case (Cons i ids)
  from Cons.IH [OF removeById_storeInv [OF Cons.prems], of i] removeById_mset_sub [OF Cons.prems, of i]
  show ?case by (simp add: subset_mset.order_trans)
qed

lemma removeIds_removes:
  assumes "storeInv s" and "distinct (map lid (storedListeners s))" and "i \<in> set ids"
  shows "i \<notin> lid ` set (storedListeners (removeIds ids s))"
  using assms
proof (induction ids arbitrary: s)
  case Nil
  then show ?case by simp
next
  case (Cons j ids)
  let ?s = "snd (removeById j s)"
  have inv: "storeInv ?s" using Cons.prems(1) by (rule removeById_storeInv)
  have sub: "mset (storedListeners ?s) \<subseteq># mset (storedListeners s)"
    using Cons.prems(1) by (rule removeById_mset_sub)
  have dist: "distinct (map lid (storedListeners ?s))"
    using sub Cons.prems(2) by (rule distinct_map_sub)
  show ?case
  proof (cases "i \<in> set ids")
    case True
    from Cons.IH [OF inv dist True] show ?thesis by simp
  next
    case False
    with Cons.prems(3) have "i = j" by simp
    then have "i \<notin> lid ` set (storedListeners ?s)"
      using removeById_removes [OF Cons.prems(1,2), of j] by simp
    moreover have "set (storedListeners (removeIds ids ?s)) \<subseteq> set (storedListeners ?s)"
      using set_mset_mono [OF removeIds_mset_sub [OF inv, of ids]] by simp
    ultimately show ?thesis by auto
  qed
qed


section \<open>Every operation keeps the store well formed\<close>

lemma step_storeInv:
  assumes "storeInv s"
  shows "storeInv (step operation s)"
proof (cases operation)
  case (Add pat h options now)
  then show ?thesis using assms by (simp add: add_storeInv)
next
  case (Remove pat i)
  then show ?thesis using assms by (simp add: remove_storeInv)
next
  case (RemoveById i)
  then show ?thesis using assms by (simp add: removeById_storeInv)
next
  case (RemoveAll event)
  then show ?thesis using assms by (simp add: removeAll_storeInv)
next
  case (UpdateStats i d)
  then show ?thesis using assms by (simp add: sameRegistrations_storeInv [OF updateStats_same])
next
  case (MarkForRemoval i)
  then show ?thesis using assms by (simp add: sameRegistrations_storeInv [OF markForRemoval_same])
next
  case RemoveMarked
  then show ?thesis using assms by (simp add: removeMarked_storeInv)
qed

lemma regs_sub: "mset (storedListeners s') \<subseteq># mset (storedListeners s) \<Longrightarrow> regs s' \<subseteq># regs s"
  using image_mset_subseteq_mono [of _ _ registration] by (simp add: regs_def)

lemma regs_same: "sameRegistrations s' s \<Longrightarrow> regs s' = regs s"
  by (simp add: regs_def sameRegistrations_listeners)

lemma sameRegistrations_symbols: "sameRegistrations s' s \<Longrightarrow> symbols s' = symbols s"
  by (simp add: sameRegistrations_def)

lemma step_regs:
  assumes "storeInv s"
  shows "(\<exists>pat h options now. operation = Add pat h options now \<and>
            regs (step operation s) = add_mset (newListener pat h options now s) (regs s) \<and>
            symbols (step operation s) = Suc (symbols s)) \<or>
         (regs (step operation s) \<subseteq># regs s \<and> symbols (step operation s) = symbols s)"
proof (cases operation)
  case (Add pat h options now)
  have "registration (newListener pat h options now s) = newListener pat h options now s"
    by (simp add: registration_def newListener_def)
  then show ?thesis using Add by (simp add: regs_def add_mset add_symbols)
next
  case (Remove pat i)
  then show ?thesis by (simp add: regs_sub remove_mset_sub remove_symbols)
next
  case (RemoveById i)
  then show ?thesis using assms by (simp add: regs_sub removeById_mset_sub removeById_symbols)
next
  case (RemoveAll event)
  then show ?thesis by (simp add: regs_sub removeAll_mset_sub removeAll_symbols)
next
  case (UpdateStats i d)
  then show ?thesis
    by (simp add: regs_same [OF updateStats_same] sameRegistrations_symbols [OF updateStats_same])
next
  case (MarkForRemoval i)
  then show ?thesis
    by (simp add: regs_same [OF markForRemoval_same]
        sameRegistrations_symbols [OF markForRemoval_same])
next
  case RemoveMarked
  then show ?thesis by (simp add: regs_sub removeMarked_mset_sub removeMarked_symbols)
qed

lemma ids_regs: "mset (map lid (storedListeners s)) = image_mset lid (regs s)"
  by (simp add: regs_def multiset.map_comp comp_def)

lemma idsOk_regs:
  "idsOk s \<longleftrightarrow> distinct (map lid (storedListeners s)) \<and> (\<forall>i \<in># image_mset lid (regs s). i < symbols s)"
  by (auto simp: idsOk_def list_all_iff regs_def)

lemma step_ids:
  assumes "storeInv s"
  shows "(mset (map lid (storedListeners (step operation s))) =
            add_mset (symbols s) (mset (map lid (storedListeners s))) \<and>
          symbols (step operation s) = Suc (symbols s)) \<or>
         (mset (map lid (storedListeners (step operation s))) \<subseteq>#
            mset (map lid (storedListeners s)) \<and>
          symbols (step operation s) = symbols s)"
proof -
  from step_regs [OF assms, of operation] show ?thesis
  proof (elim disjE exE conjE)
    fix pat h options now
    assume "regs (step operation s) = add_mset (newListener pat h options now s) (regs s)"
      and "symbols (step operation s) = Suc (symbols s)"
    then show ?thesis unfolding ids_regs by (simp add: newListener_def)
  next
    assume "regs (step operation s) \<subseteq># regs s" and "symbols (step operation s) = symbols s"
    then show ?thesis unfolding ids_regs by (simp add: image_mset_subseteq_mono)
  qed
qed

lemma step_idsOk:
  assumes inv: "storeInv s" and ok: "idsOk s"
  shows "idsOk (step operation s)"
proof -
  let ?new = "map lid (storedListeners (step operation s))"
  let ?old = "map lid (storedListeners s)"
  have d: "distinct ?old" and b: "\<forall>i \<in> set ?old. i < symbols s"
    using ok by (auto simp: idsOk_def list_all_iff)
  from step_ids [OF inv, of operation] have "distinct ?new \<and> (\<forall>i \<in> set ?new. i < symbols (step operation s))"
  proof (elim disjE conjE)
    assume m: "mset ?new = add_mset (symbols s) (mset ?old)"
      and sy: "symbols (step operation s) = Suc (symbols s)"
    from m have "mset ?new = mset (symbols s # ?old)" by simp
    then have "distinct ?new = distinct (symbols s # ?old)" and "set ?new = set (symbols s # ?old)"
      by (rule mset_eq_imp_distinct_iff, rule mset_eq_setD)
    with d b sy show ?thesis by (auto simp: less_Suc_eq)
  next
    assume m: "mset ?new \<subseteq># mset ?old" and sy: "symbols (step operation s) = symbols s"
    from m d have "distinct ?new" by (rule distinct_mset_sub)
    moreover from set_mset_mono [OF m] have "set ?new \<subseteq> set ?old" by simp
    ultimately show ?thesis using b sy by auto
  qed
  then show ?thesis by (auto simp: idsOk_def list_all_iff)
qed

lemma step_wellFormed: "wellFormed s \<Longrightarrow> wellFormed (step operation s)"
  by (simp add: wellFormed_def step_storeInv step_idsOk)

lemma createListenerStore_wellFormed: "wellFormed createListenerStore"
  by (simp add: wellFormed_def storeInv_def idsOk_def createListenerStore_def bucketsOk_Nil
      storedListeners_def bucketListeners_def)

lemma runOps_Nil [simp]: "runOps [] s = s"
  by (simp add: runOps_def)

lemma runOps_Cons [simp]: "runOps (operation # ops) s = runOps ops (step operation s)"
  by (simp add: runOps_def)

lemma runOps_append: "runOps (ops @ ops') s = runOps ops' (runOps ops s)"
  by (simp add: runOps_def)

lemma runOps_wellFormed: "wellFormed s \<Longrightarrow> wellFormed (runOps ops s)"
  by (induction ops arbitrary: s) (simp_all add: step_wellFormed)

lemma reachable_wellFormed: "wellFormed (runOps ops createListenerStore)"
  by (rule runOps_wellFormed [OF createListenerStore_wellFormed])

lemma step_retired:
  assumes "storeInv s" and "retired i s"
  shows "retired i (step operation s)"
proof -
  from step_ids [OF assms(1), of operation] show ?thesis
  proof (elim disjE conjE)
    assume m: "mset (map lid (storedListeners (step operation s))) =
        add_mset (symbols s) (mset (map lid (storedListeners s)))"
      and sy: "symbols (step operation s) = Suc (symbols s)"
    from m have "mset (map lid (storedListeners (step operation s))) =
        mset (symbols s # map lid (storedListeners s))" by simp
    then have "set (map lid (storedListeners (step operation s))) =
        set (symbols s # map lid (storedListeners s))" by (rule mset_eq_setD)
    with assms(2) sy show ?thesis by (auto simp: retired_def)
  next
    assume m: "mset (map lid (storedListeners (step operation s))) \<subseteq>#
        mset (map lid (storedListeners s))"
      and sy: "symbols (step operation s) = symbols s"
    from set_mset_mono [OF m] assms(2) sy show ?thesis by (auto simp: retired_def)
  qed
qed

lemma runOps_retired:
  "wellFormed s \<Longrightarrow> retired i s \<Longrightarrow> retired i (runOps ops s)"
proof (induction ops arbitrary: s)
  case Nil
  then show ?case by simp
next
  case (Cons operation ops)
  from Cons.prems have "retired i (step operation s)"
    by (simp add: wellFormed_def step_retired)
  with Cons.IH [OF step_wellFormed [OF Cons.prems(1)]] show ?case by simp
qed

section \<open>The invariant of the buckets, for runs of the store\<close>

lemma runOps_buckets:
  "(\<forall>e \<in> set (exactMatches (runOps ops createListenerStore)).
      snd e \<noteq> [] \<and> \<not> hasWildcard (fst e) \<and> (\<forall>l \<in> set (snd e). pattern l = fst e)) \<and>
   (\<forall>e \<in> set (wildcardPatterns (runOps ops createListenerStore)).
      snd e \<noteq> [] \<and> hasWildcard (fst e) \<and> (\<forall>l \<in> set (snd e). pattern l = fst e)) \<and>
   distinct (map fst (exactMatches (runOps ops createListenerStore))) \<and>
   distinct (map fst (wildcardPatterns (runOps ops createListenerStore))) \<and>
   fst ` set (exactMatches (runOps ops createListenerStore)) \<inter>
     fst ` set (wildcardPatterns (runOps ops createListenerStore)) = {}"
proof -
  let ?s = "runOps ops createListenerStore"
  have e: "bucketsOk False (exactMatches ?s)" and w: "bucketsOk True (wildcardPatterns ?s)"
    using reachable_wellFormed [of ops] by (simp_all add: wellFormed_def storeInv_def)
  have 1: "\<forall>e \<in> set (exactMatches ?s).
      snd e \<noteq> [] \<and> \<not> hasWildcard (fst e) \<and> (\<forall>l \<in> set (snd e). pattern l = fst e)"
    using e by (simp add: bucketsOk_def list_all_iff)
  have 2: "\<forall>e \<in> set (wildcardPatterns ?s).
      snd e \<noteq> [] \<and> hasWildcard (fst e) \<and> (\<forall>l \<in> set (snd e). pattern l = fst e)"
    using w by (simp add: bucketsOk_def list_all_iff)
  have 3: "distinct (map fst (exactMatches ?s))" "distinct (map fst (wildcardPatterns ?s))"
    using e w by (simp_all add: bucketsOk_def)
  have 4: "fst ` set (exactMatches ?s) \<inter> fst ` set (wildcardPatterns ?s) = {}"
    using 1 2 by fastforce
  from 1 2 3 4 show ?thesis by blast
qed

section \<open>Removal of what is not there\<close>

lemma setMapForPattern_same: "setMapForPattern pat (getMapForPattern pat s) s = s"
  by (simp add: setMapForPattern_def getMapForPattern_def)

lemma getMapForPattern_ok: "storeInv s \<Longrightarrow> bucketsOk (hasWildcard pat) (getMapForPattern pat s)"
  by (simp add: storeInv_def getMapForPattern_def)

lemma remove_absent:
  assumes "storeInv s" and "\<not> hasId i (getOrEmpty (getMapForPattern pat s) pat)"
  shows "remove pat i s = (False, s)"
  using dropFrom_absent [OF getMapForPattern_ok [OF assms(1)] assms(2)] assms(2)
  by (simp add: remove_dropFrom setMapForPattern_same)

lemma getOrEmpty_collected:
  "l \<in> set (getOrEmpty m k) \<Longrightarrow> (k, lid l) \<in> set (collectAllListeners m)"
  using getOrEmpty_mem [of l m k] by (force simp: collectAllListeners_def)

lemma getOrEmpty_stored:
  "l \<in> set (getOrEmpty (getMapForPattern pat s) pat) \<Longrightarrow> l \<in> set (storedListeners s)"
  using getOrEmpty_mem [of l "getMapForPattern pat s" pat]
  by (force simp: storedListeners_def bucketListeners_def getMapForPattern_def split: if_splits)

lemma runOps_failed_removal:
  "((pat, i) \<notin> set (collectAllListeners (exactMatches (runOps ops createListenerStore)) @
                     collectAllListeners (wildcardPatterns (runOps ops createListenerStore)))
      \<longrightarrow> remove pat i (runOps ops createListenerStore) = (False, runOps ops createListenerStore)) \<and>
   (i \<notin> set (map lid (storedListeners (runOps ops createListenerStore)))
      \<longrightarrow> removeById i (runOps ops createListenerStore) = (None, runOps ops createListenerStore))"
proof (intro conjI impI)
  let ?s = "runOps ops createListenerStore"
  have inv: "storeInv ?s" using reachable_wellFormed [of ops] by (simp add: wellFormed_def)
  assume "(pat, i) \<notin> set (collectAllListeners (exactMatches ?s) @ collectAllListeners (wildcardPatterns ?s))"
  then have "\<not> hasId i (getOrEmpty (getMapForPattern pat ?s) pat)"
    using getOrEmpty_collected [of _ "getMapForPattern pat ?s" pat]
    by (auto simp: hasId_def getMapForPattern_def split: if_splits)
  then show "remove pat i ?s = (False, ?s)" using inv by (simp add: remove_absent)
next
  assume "i \<notin> set (map lid (storedListeners (runOps ops createListenerStore)))"
  then show "removeById i (runOps ops createListenerStore) = (None, runOps ops createListenerStore)"
    by (simp add: removeById_absent)
qed

section \<open>Unsubscribing\<close>

lemma set_regs: "set_mset (regs s) = registration ` set (storedListeners s)"
  by (simp add: regs_def)

lemma registeredUnder_regs:
  "registeredUnder i pat s \<longleftrightarrow> i < symbols s \<and> (\<forall>r \<in># regs s. lid r \<noteq> i \<or> pattern r = pat)"
  by (auto simp: registeredUnder_def list_all_iff set_regs)

lemma step_registeredUnder:
  assumes "storeInv s" and "registeredUnder i pat s"
  shows "registeredUnder i pat (step operation s)"
proof -
  from assms(2) have lt: "i < symbols s" and old: "\<forall>r \<in># regs s. lid r \<noteq> i \<or> pattern r = pat"
    by (simp_all add: registeredUnder_regs)
  from step_regs [OF assms(1), of operation] show ?thesis
  proof (elim disjE exE conjE)
    fix p h options now
    assume "regs (step operation s) = add_mset (newListener p h options now s) (regs s)"
      and "symbols (step operation s) = Suc (symbols s)"
    with lt old show ?thesis by (auto simp: registeredUnder_regs newListener_def)
  next
    assume "regs (step operation s) \<subseteq># regs s" and "symbols (step operation s) = symbols s"
    with lt old show ?thesis
      using set_mset_mono [of "regs (step operation s)" "regs s"]
      by (auto simp: registeredUnder_regs)
  qed
qed

lemma runOps_registeredUnder:
  "wellFormed s \<Longrightarrow> registeredUnder i pat s \<Longrightarrow> registeredUnder i pat (runOps ops s)"
proof (induction ops arbitrary: s)
  case Nil
  then show ?case by simp
next
  case (Cons operation ops)
  from Cons.prems have "registeredUnder i pat (step operation s)"
    by (simp add: wellFormed_def step_registeredUnder)
  with Cons.IH [OF step_wellFormed [OF Cons.prems(1)]] show ?case by simp
qed

lemma add_registeredUnder:
  assumes "wellFormed s"
  shows "registeredUnder (symbols s) pat (snd (add pat h options now s))"
proof -
  have "\<forall>l \<in> set (storedListeners s). lid l < symbols s"
    using assms by (simp add: wellFormed_def idsOk_def list_all_iff)
  moreover have "set (storedListeners (snd (add pat h options now s))) =
      insert (newListener pat h options now s) (set (storedListeners s))"
    using arg_cong [OF add_mset [of pat h options now s], of set_mset] by simp
  ultimately show ?thesis
    by (auto simp: registeredUnder_def list_all_iff add_symbols newListener_def)
qed

lemma remove_removes:
  assumes wf: "wellFormed s" and reg: "registeredUnder i pat s"
  shows "i \<notin> set (map lid (storedListeners (snd (remove pat i s))))"
proof (cases "i \<in> set (map lid (storedListeners s))")
  case False
  with set_mset_mono [OF remove_mset_sub [of pat i s]] show ?thesis by auto
next
  case True
  then obtain l where l: "l \<in> set (storedListeners s)" and li: "lid l = i" by auto
  with reg have lp: "pattern l = pat" by (auto simp: registeredUnder_def list_all_iff)
  have inv: "storeInv s" and ids: "distinct (map lid (storedListeners s))"
    using wf by (simp_all add: wellFormed_def idsOk_def)
  have e: "bucketsOk False (exactMatches s)" and w: "bucketsOk True (wildcardPatterns s)"
    using inv by (simp_all add: storeInv_def)
  have de: "distinct (map fst (exactMatches s))" and dw: "distinct (map fst (wildcardPatterns s))"
    using e w by (simp_all add: bucketsOk_def)
  have ie: "distinct (map lid (bucketListeners (exactMatches s)))"
    and iw: "distinct (map lid (bucketListeners (wildcardPatterns s)))"
    and disj: "lid ` set (bucketListeners (exactMatches s)) \<inter>
               lid ` set (bucketListeners (wildcardPatterns s)) = {}"
    using ids by (simp_all add: storedListeners_def)
  show ?thesis
  proof (cases "hasWildcard pat")
    case True
    with l lp bucketsOk_pattern [OF e, of l] have lw: "l \<in> set (bucketListeners (wildcardPatterns s))"
      by (auto simp: storedListeners_def)
    from bucketsOk_in_entry [OF w lw] lp li have h: "hasId i (getOrEmpty (wildcardPatterns s) pat)"
      by (auto simp: hasId_def)
    from lw li disj have "i \<notin> lid ` set (bucketListeners (exactMatches s))" by blast
    with dropFrom_removes [OF dw iw h] True show ?thesis
      by (simp add: remove_dropFrom setMapForPattern_def getMapForPattern_def storedListeners_def
          image_Un)
  next
    case False
    with l lp bucketsOk_pattern [OF w, of l] have le: "l \<in> set (bucketListeners (exactMatches s))"
      by (auto simp: storedListeners_def)
    from bucketsOk_in_entry [OF e le] lp li have h: "hasId i (getOrEmpty (exactMatches s) pat)"
      by (auto simp: hasId_def)
    from le li disj have "i \<notin> lid ` set (bucketListeners (wildcardPatterns s))" by blast
    with dropFrom_removes [OF de ie h] False show ?thesis
      by (simp add: remove_dropFrom setMapForPattern_def getMapForPattern_def storedListeners_def
          image_Un)
  qed
qed

lemma remove_retired:
  assumes "wellFormed s" and "retired i s"
  shows "snd (remove pat i s) = s"
proof -
  have "\<not> hasId i (getOrEmpty (getMapForPattern pat s) pat)"
    using assms(2) getOrEmpty_stored [of _ pat s] by (auto simp: retired_def hasId_def)
  with assms(1) show ?thesis by (simp add: wellFormed_def remove_absent)
qed

lemma runOps_unsubscribe:
  "let s = runOps ops createListenerStore;
       s1 = snd (add pat h options now s);
       s2 = snd (remove pat (symbols s) (runOps ops1 s1))
   in fst (add pat h options now s) = symbols s \<and>
      symbols s \<notin> set (map lid (storedListeners s2)) \<and>
      snd (remove pat (symbols s) s2) = s2 \<and>
      snd (remove pat (symbols s) (runOps ops2 s2)) = runOps ops2 s2"
proof -
  let ?s = "runOps ops createListenerStore"
  let ?i = "symbols ?s"
  let ?s1 = "snd (add pat h options now ?s)"
  let ?s1' = "runOps ops1 ?s1"
  let ?s2 = "snd (remove pat ?i ?s1')"
  have wf: "wellFormed ?s" by (rule reachable_wellFormed)
  have wf1: "wellFormed ?s1" using step_wellFormed [OF wf, of "Add pat h options now"] by simp
  have wf1': "wellFormed ?s1'" using wf1 by (rule runOps_wellFormed)
  have reg: "registeredUnder ?i pat ?s1'"
    using wf1 add_registeredUnder [OF wf] by (rule runOps_registeredUnder)
  have wf2: "wellFormed ?s2" using step_wellFormed [OF wf1', of "Remove pat ?i"] by simp
  have gone: "?i \<notin> set (map lid (storedListeners ?s2))" using wf1' reg by (rule remove_removes)
  have "?i < symbols ?s2" using reg by (simp add: registeredUnder_def remove_symbols)
  with gone have ret: "retired ?i ?s2" by (simp add: retired_def)
  have a: "snd (remove pat ?i ?s2) = ?s2" using wf2 ret by (rule remove_retired)
  have b: "snd (remove pat ?i (runOps ops2 ?s2)) = runOps ops2 ?s2"
    using runOps_wellFormed [OF wf2] runOps_retired [OF wf2 ret] by (rule remove_retired)
  have i: "fst (add pat h options now ?s) = ?i" by (simp add: add_newListener)
  from gone a b i show ?thesis unfolding Let_def by blast
qed

section \<open>\<open>getMatching\<close> and \<open>removeAll\<close>\<close>

lemma getMatching_eq:
  "getMatching event s =
     sortByPriority (getOrEmpty (exactMatches s) event @ matchingWildcards event (wildcardPatterns s))"
  by (simp add: getMatching_def getOrEmpty_def matchingWildcards_def)

lemma mset_getOrEmpty_sub: "mset (getOrEmpty m k) \<subseteq># mset (bucketListeners m)"
proof (induction m)
  case Nil
  then show ?case by (simp add: getOrEmpty_def)
next
  case (Cons e m)
  obtain k' v where e: "e = (k', v)" by (cases e)
  show ?case
  proof (cases "k' = k")
    case True
    then show ?thesis by (simp add: e getOrEmpty_def bucketListeners_def)
  next
    case False
    with Cons have "mset (getOrEmpty (e # m) k) \<subseteq># mset (bucketListeners m)"
      by (simp add: e getOrEmpty_def)
    then show ?thesis
      by (simp add: e bucketListeners_def subset_mset.add_increasing)
  qed
qed

lemma mset_matchingWildcards_sub: "mset (matchingWildcards event m) \<subseteq># mset (bucketListeners m)"
proof (induction m)
  case Nil
  then show ?case by (simp add: matchingWildcards_def bucketListeners_def)
next
  case (Cons e m)
  then show ?case
    by (auto simp: matchingWildcards_def bucketListeners_def subset_mset.add_increasing
        intro: subset_mset.add_mono)
qed

lemma mset_getMatching_sub: "mset (getMatching event s) \<subseteq># mset (storedListeners s)"
  by (simp add: getMatching_eq mset_sortByPriority storedListeners_def
      subset_mset.add_mono mset_getOrEmpty_sub mset_matchingWildcards_sub)

lemma set_getMatching_sub: "set (getMatching event s) \<subseteq> set (storedListeners s)"
  using set_mset_mono [OF mset_getMatching_sub [of event s]] by simp

lemma set_matchingWildcards:
  assumes "bucketsOk w m"
  shows "set (matchingWildcards event m) = {l \<in> set (bucketListeners m). matches (pattern l) event}"
proof -
  have "\<forall>e \<in> set m. \<forall>l \<in> set (snd e). pattern l = fst e"
    using assms by (simp add: bucketsOk_def list_all_iff)
  then show ?thesis
    by (induction m) (auto simp: matchingWildcards_def bucketListeners_def)
qed

lemma bucketListeners_mapDelete:
  assumes "bucketsOk w m"
  shows "bucketListeners (mapDelete m k) = filter (\<lambda>l. pattern l \<noteq> k) (bucketListeners m)"
  using assms
proof (induction m)
  case Nil
  then show ?case by (simp add: mapDelete_def bucketListeners_def)
next
  case (Cons e m)
  from Cons.prems have ok: "bucketsOk w m" and p: "\<forall>l \<in> set (snd e). pattern l = fst e"
    by (simp_all add: bucketsOk_def list_all_iff)
  have "filter (\<lambda>l. pattern l \<noteq> k) (snd e) = (if fst e = k then [] else snd e)"
    using p by (auto simp: filter_empty_conv filter_id_conv)
  with Cons.IH [OF ok] show ?case by (simp add: mapDelete_def bucketListeners_def)
qed

lemma runOps_removeAll_literal:
  "storedListeners (snd (removeAll (Some e) (runOps ops createListenerStore))) =
     filter (\<lambda>l. pattern l \<noteq> e) (storedListeners (runOps ops createListenerStore)) \<and>
   (\<forall>l \<in> set (storedListeners (runOps ops createListenerStore)).
      hasWildcard (pattern l) \<and> pattern l \<noteq> e \<and> matches (pattern l) e \<longrightarrow>
      l \<in> set (storedListeners (snd (removeAll (Some e) (runOps ops createListenerStore)))) \<and>
      l \<in> set (getMatching e (snd (removeAll (Some e) (runOps ops createListenerStore)))))"
proof -
  let ?s = "runOps ops createListenerStore"
  let ?s' = "snd (removeAll (Some e) ?s)"
  have inv: "storeInv ?s" using reachable_wellFormed [of ops] by (simp add: wellFormed_def)
  then have ex: "bucketsOk False (exactMatches ?s)" and wi: "bucketsOk True (wildcardPatterns ?s)"
    by (simp_all add: storeInv_def)
  have wi': "bucketsOk True (wildcardPatterns ?s')"
    using removeAll_storeInv [OF inv, of "Some e"] by (simp add: storeInv_def)
  have w': "wildcardPatterns ?s' = mapDelete (wildcardPatterns ?s) e"
    by (simp add: removeAll_def)
  have 1: "storedListeners ?s' = filter (\<lambda>l. pattern l \<noteq> e) (storedListeners ?s)"
    by (simp add: removeAll_def storedListeners_def
        bucketListeners_mapDelete [OF ex] bucketListeners_mapDelete [OF wi])
  have 2: "l \<in> set (storedListeners ?s') \<and> l \<in> set (getMatching e ?s')"
    if l: "l \<in> set (storedListeners ?s)"
      and h: "hasWildcard (pattern l) \<and> pattern l \<noteq> e \<and> matches (pattern l) e" for l
  proof -
    from l h bucketsOk_pattern [OF ex, of l] have "l \<in> set (bucketListeners (wildcardPatterns ?s))"
      by (auto simp: storedListeners_def)
    with h have "l \<in> set (bucketListeners (wildcardPatterns ?s'))"
      unfolding w' bucketListeners_mapDelete [OF wi] by simp
    with h have "l \<in> set (matchingWildcards e (wildcardPatterns ?s'))"
      unfolding set_matchingWildcards [OF wi'] by simp
    then have "l \<in> set (getMatching e ?s')"
      by (simp add: getMatching_eq set_sortByPriority)
    moreover from l h have "l \<in> set (storedListeners ?s')" unfolding 1 by simp
    ultimately show ?thesis by simp
  qed
  from 1 2 show ?thesis by blast
qed

section \<open>\<open>removeAll\<close> with a wildcard pattern as event name\<close>

text \<open>
  C4. One listener is registered under \<open>user:*\<close>. \<open>removeAll('user:*')\<close> deletes the key
  from both maps, so the listener is gone from the store, but the returned list is built
  from the exact map alone and is empty: a removed listener is not reported.
\<close>

theorem removeAll_wildcard_unreported:
  "fst (removeAll (Some ''user:*'')
          (runOps [Add ''user:*'' h noOptions 5] createListenerStore)) = [] \<and>
   map lid (storedListeners (runOps [Add ''user:*'' h noOptions 5] createListenerStore)) = [0] \<and>
   storedListeners (snd (removeAll (Some ''user:*'')
          (runOps [Add ''user:*'' h noOptions 5] createListenerStore))) = []"
  by (simp add: runOps_def add_def noOptions_def createListenerStore_def removeAll_def
      getMapForPattern_def setMapForPattern_def hasWildcard_def sortByPriority_def
      storedListeners_def bucketListeners_def mapDelete_def getOrEmpty_def)

section \<open>What \<open>sortByPriority\<close> guarantees\<close>

text \<open>
  The result of \<open>getMatching\<close> holds the listeners of the exact bucket and of the
  matching wildcard buckets, in descending priority and, within a priority, ascending
  \<open>addedAt\<close>; listeners equal in both keep the order of the merged array.
\<close>

lemma before_iff:
  "before a b \<longleftrightarrow> priority b < priority a \<or> (priority a = priority b \<and> addedAt a \<le> addedAt b)"
  by (auto simp: before_def compareListeners_def)

lemma before_total: "\<not> before a b \<Longrightarrow> before b a"
  by (auto simp: before_iff)

lemma before_trans: "before a b \<Longrightarrow> before b c \<Longrightarrow> before a c"
  by (auto simp: before_iff)

lemma set_insertSorted: "set (insertSorted x ys) = insert x (set ys)"
  by (induction ys) auto

lemma sorted_insertSorted: "sorted_wrt before ys \<Longrightarrow> sorted_wrt before (insertSorted x ys)"
proof (induction ys)
  case Nil
  then show ?case by simp
next
  case (Cons y ys)
  show ?case
  proof (cases "compareListeners x y \<le> 0")
    case True
    then have "before x y" by (simp add: before_def)
    with Cons.prems have "\<forall>z \<in> set (y # ys). before x z" by (auto intro: before_trans)
    with True Cons.prems show ?thesis by simp
  next
    case False
    then have "before y x" using before_total [of x y] by (simp add: before_def)
    with False Cons show ?thesis by (auto simp: set_insertSorted)
  qed
qed

lemma sortByPriority_sorted: "sorted_wrt before (sortByPriority ls)"
  by (induction ls) (simp_all add: sortByPriority_def sorted_insertSorted)

lemma filter_insertSorted_tie:
  assumes "priority x = p" and "addedAt x = t"
  shows "filter (\<lambda>l. priority l = p \<and> addedAt l = t) (insertSorted x ys) =
         x # filter (\<lambda>l. priority l = p \<and> addedAt l = t) ys"
  using assms by (induction ys) (auto simp: compareListeners_def)

lemma filter_insertSorted_other:
  assumes "\<not> (priority x = p \<and> addedAt x = t)"
  shows "filter (\<lambda>l. priority l = p \<and> addedAt l = t) (insertSorted x ys) =
         filter (\<lambda>l. priority l = p \<and> addedAt l = t) ys"
  using assms by (induction ys) auto

lemma sortByPriority_stable:
  "filter (\<lambda>l. priority l = p \<and> addedAt l = t) (sortByPriority ls) =
   filter (\<lambda>l. priority l = p \<and> addedAt l = t) ls"
proof (induction ls)
  case Nil
  then show ?case by (simp add: sortByPriority_def)
next
  case (Cons x ls)
  then show ?case
    using filter_insertSorted_tie [of x p t "sortByPriority ls"]
      filter_insertSorted_other [of x p t "sortByPriority ls"]
    by (auto simp: sortByPriority_def)
qed

lemma getMatching_listeners:
  "mset (getMatching event s) =
     mset (getOrEmpty (exactMatches s) event) + mset (matchingWildcards event (wildcardPatterns s))"
  by (simp add: getMatching_eq mset_sortByPriority)

lemma getMatching_sorted: "sorted_wrt before (getMatching event s)"
  by (simp add: getMatching_eq sortByPriority_sorted)

lemma getMatching_ties:
  "filter (\<lambda>l. priority l = p \<and> addedAt l = t) (getMatching event s) =
   filter (\<lambda>l. priority l = p \<and> addedAt l = t)
     (getOrEmpty (exactMatches s) event @ matchingWildcards event (wildcardPatterns s))"
  by (simp only: getMatching_eq sortByPriority_stable)

section \<open>Order of \<open>getMatching\<close> on equal timestamps\<close>

text \<open>
  C1. Two listeners of priority 0 are registered in the same millisecond, the first
  under \<open>*\<close> and the second under \<open>x\<close>. \<open>getMatching('x')\<close> returns the second before
  the first: the comparator sees equal priorities and equal \<open>addedAt\<close>, and the stable
  sort keeps the order of the merged array, exact bucket first. The claim asks for
  registration order.
\<close>

theorem getMatching_same_millisecond:
  "map lid (getMatching ''x''
     (runOps [Add ''*'' h noOptions 5, Add ''x'' h noOptions 5] createListenerStore)) = [1, 0]"
  by (simp add: runOps_def add_def noOptions_def createListenerStore_def getMatching_def
      getMapForPattern_def setMapForPattern_def hasWildcard_def sortByPriority_def
      compareListeners_def matches_def getOrEmpty_def)

section \<open>The executor\<close>

lemma recordExecution_fields [simp]:
  "listenerStore (recordExecution i d b) = updateStats i d (listenerStore b)"
  "world (recordExecution i d b) = world b"
  "tasks (recordExecution i d b) = tasks b"
  "reactions (recordExecution i d b) = reactions b"
  by (simp_all add: recordExecution_def)

lemma executeHandler_world:
  "world (fst (executeHandler payload l b)) = fst (handler l payload (world b))"
  by (auto simp: executeHandler_def split: prod.splits returned.splits)

lemma executeHandler_tasks: "tasks (fst (executeHandler payload l b)) = tasks b"
  by (auto simp: executeHandler_def split: prod.splits returned.splits)

lemma executeHandler_store:
  "listenerStore (fst (executeHandler payload l b)) =
     (if returnedBy l payload (world b) = Value
      then updateStats (lid l) (snd (snd (handler l payload (world b)))) (listenerStore b)
      else listenerStore b)"
  by (auto simp: executeHandler_def returnedBy_def split: prod.splits returned.splits)

lemma executeHandler_handled:
  "snd (executeHandler payload l b) =
     (case returnedBy l payload (world b) of
        Throws \<Rightarrow> Result \<lparr>shouldRemove = False, duration = snd (snd (handler l payload (world b)))\<rparr>
      | Value \<Rightarrow> Result \<lparr>shouldRemove = once l, duration = snd (snd (handler l payload (world b)))\<rparr>
      | NativePromise st \<Rightarrow> NativeThen st (snd (snd (handler l payload (world b))))
      | ForeignPromise st \<Rightarrow> ForeignThen
      | BrokenThen \<Rightarrow> Result \<lparr>shouldRemove = False, duration = snd (snd (handler l payload (world b)))\<rparr>
      | EmptyThen \<Rightarrow> Nullish)"
  by (auto simp: executeHandler_def returnedBy_def split: prod.splits returned.splits)

lemma sameRegistrations_refl [simp]: "sameRegistrations s s"
  by (simp add: sameRegistrations_def)

lemma sameRegistrations_trans:
  "sameRegistrations s'' s' \<Longrightarrow> sameRegistrations s' s \<Longrightarrow> sameRegistrations s'' s"
  by (simp add: sameRegistrations_def)

lemma executeHandler_same:
  "sameRegistrations (listenerStore (fst (executeHandler payload l b))) (listenerStore b)"
  by (simp add: executeHandler_store updateStats_same)

lemma executeHandler_ops:
  "\<exists>ops. listenerStore (fst (executeHandler payload l b)) = runOps ops (listenerStore b)"
proof (cases "returnedBy l payload (world b) = Value")
  case True
  then have "listenerStore (fst (executeHandler payload l b)) =
      runOps [UpdateStats (lid l) (snd (snd (handler l payload (world b))))] (listenerStore b)"
    by (simp add: executeHandler_store)
  then show ?thesis by blast
next
  case False
  then have "listenerStore (fst (executeHandler payload l b)) = runOps [] (listenerStore b)"
    by (simp add: executeHandler_store)
  then show ?thesis by blast
qed

lemma executeLoop_Cons:
  "executeLoop payload (l # rest) acc b =
     (case returnedBy l payload (world b) of
        Throws \<Rightarrow> executeLoop payload rest acc (fst (executeHandler payload l b))
      | Value \<Rightarrow>
          executeLoop payload rest (if once l then acc @ [lid l] else acc)
            (fst (executeHandler payload l b))
      | NativePromise st \<Rightarrow>
          (fst (executeHandler payload l b),
           Awaiting l st (snd (snd (handler l payload (world b)))) rest acc)
      | ForeignPromise st \<Rightarrow> executeLoop payload rest acc (fst (executeHandler payload l b))
      | BrokenThen \<Rightarrow> executeLoop payload rest acc (fst (executeHandler payload l b))
      | EmptyThen \<Rightarrow> (fst (executeHandler payload l b), Failed))"
  using executeHandler_handled [of payload l b]
  by (cases "executeHandler payload l b"; cases "returnedBy l payload (world b)") simp_all

lemma executeLoop_facts:
  "tasks (fst (executeLoop payload ls acc b)) = tasks b \<and>
   sameRegistrations (listenerStore (fst (executeLoop payload ls acc b))) (listenerStore b) \<and>
   (\<exists>ops. listenerStore (fst (executeLoop payload ls acc b)) = runOps ops (listenerStore b))"
proof (induction ls arbitrary: acc b)
  case Nil
  have "\<exists>ops. listenerStore b = runOps ops (listenerStore b)"
    by (rule exI [of _ "[]"]) simp
  then show ?case by simp
next
  case (Cons l ls)
  let ?b1 = "fst (executeHandler payload l b)"
  have t: "tasks ?b1 = tasks b" by (rule executeHandler_tasks)
  have s: "sameRegistrations (listenerStore ?b1) (listenerStore b)" by (rule executeHandler_same)
  obtain ops1 where o: "listenerStore ?b1 = runOps ops1 (listenerStore b)"
    using executeHandler_ops [of payload l b] by blast
  have go: "tasks (fst (executeLoop payload ls acc' ?b1)) = tasks b \<and>
      sameRegistrations (listenerStore (fst (executeLoop payload ls acc' ?b1))) (listenerStore b) \<and>
      (\<exists>ops. listenerStore (fst (executeLoop payload ls acc' ?b1)) = runOps ops (listenerStore b))"
    for acc'
  proof -
    from Cons [of acc' ?b1] obtain ops2 where
      1: "tasks (fst (executeLoop payload ls acc' ?b1)) = tasks ?b1"
      and 2: "sameRegistrations (listenerStore (fst (executeLoop payload ls acc' ?b1))) (listenerStore ?b1)"
      and 3: "listenerStore (fst (executeLoop payload ls acc' ?b1)) = runOps ops2 (listenerStore ?b1)"
      by blast
    from 3 o have "listenerStore (fst (executeLoop payload ls acc' ?b1)) =
        runOps (ops1 @ ops2) (listenerStore b)" by (simp add: runOps_append)
    with 1 t sameRegistrations_trans [OF 2 s] show ?thesis by auto
  qed
  have stop: "tasks ?b1 = tasks b \<and> sameRegistrations (listenerStore ?b1) (listenerStore b) \<and>
      (\<exists>ops. listenerStore ?b1 = runOps ops (listenerStore b))"
    using t s o by blast
  show ?case
    unfolding executeLoop_Cons
    by (cases "returnedBy l payload (world b)") (simp_all add: go stop)
qed


lemma settle_facts:
  "tasks (fst (settle payload x)) = tasks (fst x) \<and>
   sameRegistrations (listenerStore (fst (settle payload x))) (listenerStore (fst x)) \<and>
   (\<exists>ops. listenerStore (fst (settle payload x)) = runOps ops (listenerStore (fst x)))"
proof -
  have same: "tasks (fst x) = tasks (fst x) \<and>
      sameRegistrations (listenerStore (fst x)) (listenerStore (fst x)) \<and>
      (\<exists>ops. listenerStore (fst x) = runOps ops (listenerStore (fst x)))"
    using exI [of "\<lambda>ops. listenerStore (fst x) = runOps ops (listenerStore (fst x))" "[]"]
    by simp
  show ?thesis
  proof (cases "snd x")
    case (Awaiting l st d rest acc)
    show ?thesis
    proof (cases st)
      case Resolves
      let ?b1 = "recordExecution (lid l) d (fst x)"
      let ?acc = "if once l then acc @ [lid l] else acc"
      from executeLoop_facts [of payload rest ?acc ?b1] obtain ops where
        1: "tasks (fst (executeLoop payload rest ?acc ?b1)) = tasks ?b1"
        and 2: "sameRegistrations (listenerStore (fst (executeLoop payload rest ?acc ?b1)))
                  (listenerStore ?b1)"
        and 3: "listenerStore (fst (executeLoop payload rest ?acc ?b1)) =
                  runOps ops (listenerStore ?b1)"
        by blast
      have "sameRegistrations (listenerStore ?b1) (listenerStore (fst x))"
        by (simp add: updateStats_same)
      from sameRegistrations_trans [OF 2 this]
      have 4: "sameRegistrations (listenerStore (fst (executeLoop payload rest ?acc ?b1)))
                  (listenerStore (fst x))" .
      from 3 have "listenerStore (fst (executeLoop payload rest ?acc ?b1)) =
          runOps (UpdateStats (lid l) d # ops) (listenerStore (fst x))" by simp
      then have 5: "\<exists>ops. listenerStore (fst (executeLoop payload rest ?acc ?b1)) =
          runOps ops (listenerStore (fst x))" by blast
      from 1 4 5 show ?thesis by (simp add: settle_def Awaiting Resolves)
    next
      case Rejects
      from executeLoop_facts [of payload rest acc "fst x"] show ?thesis
        by (simp add: settle_def Awaiting Rejects)
    next
      case NeverSettles
      with same show ?thesis by (simp add: settle_def Awaiting)
    qed
  next
    case (Completed acc)
    with same show ?thesis by (simp add: settle_def)
  next
    case Failed
    with same show ?thesis by (simp add: settle_def)
  qed
qed

lemma removeIds_ops: "removeIds ids s = runOps (map RemoveById ids) s"
  by (induction ids arbitrary: s) simp_all

lemma emit_ops: "\<exists>ops. listenerStore (emit event payload b) = runOps ops (listenerStore b)"
proof -
  obtain b' running where
    e: "execute payload (getMatching event (listenerStore b)) b = (b', running)"
    by (cases "execute payload (getMatching event (listenerStore b)) b")
  from executeLoop_facts [of payload "getMatching event (listenerStore b)" "[]" b] e
  have "\<exists>ops. listenerStore b' = runOps ops (listenerStore b)" by (simp add: execute_def)
  with e show ?thesis by (simp add: emit_def Let_def)
qed

lemma resume_ops: "\<exists>ops. listenerStore (resume k b) = runOps ops (listenerStore b)"
proof -
  have same: "\<exists>ops. listenerStore b = runOps ops (listenerStore b)"
    by (rule exI [of _ "[]"]) simp
  show ?thesis
  proof (cases "k < length (tasks b)")
    case False
    with same show ?thesis by (simp add: resume_def)
  next
    case True
    show ?thesis
    proof (cases "tasks b ! k")
      case (Pending payload running)
      show ?thesis
      proof (cases running)
        case (Awaiting l st d rest acc)
        obtain b' running' where s: "settle payload (b, Awaiting l st d rest acc) = (b', running')"
          by (cases "settle payload (b, Awaiting l st d rest acc)")
        from settle_facts [of payload "(b, Awaiting l st d rest acc)"] s
        have "\<exists>ops. listenerStore b' = runOps ops (listenerStore b)" by simp
        with True Pending Awaiting s show ?thesis by (simp add: resume_def)
      next
        case (Completed ids)
        have "removeIds ids (listenerStore b) = runOps (map RemoveById ids) (listenerStore b)"
          by (rule removeIds_ops)
        then have "\<exists>ops. removeIds ids (listenerStore b) = runOps ops (listenerStore b)" by blast
        with True Pending Completed show ?thesis by (simp add: resume_def)
      next
        case Failed
        with True Pending same show ?thesis by (simp add: resume_def)
      qed
    next
      case EmitFulfilled
      with True same show ?thesis by (simp add: resume_def)
    next
      case EmitRejected
      with True same show ?thesis by (simp add: resume_def)
    qed
  qed
qed

lemma react_ops: "\<exists>ops. listenerStore (react n b) = runOps ops (listenerStore b)"
proof (cases "n < length (reactions b)")
  case False
  have "listenerStore b = runOps [] (listenerStore b)" by simp
  with False show ?thesis unfolding react_def by (simp only: if_False) blast
next
  case True
  obtain i d where r: "reactions b ! n = (i, d)" by (cases "reactions b ! n")
  have "updateStats i d (listenerStore b) = runOps [UpdateStats i d] (listenerStore b)" by simp
  then have "\<exists>ops. updateStats i d (listenerStore b) = runOps ops (listenerStore b)" by blast
  with True r show ?thesis by (simp add: react_def)
qed

lemma act_ops: "\<exists>ops. listenerStore (act a b) = runOps ops (listenerStore b)"
proof (cases a)
  case (Call operation)
  have "step operation (listenerStore b) = runOps [operation] (listenerStore b)" by simp
  then have "\<exists>ops. step operation (listenerStore b) = runOps ops (listenerStore b)" by blast
  with Call show ?thesis by simp
next
  case (Emit event payload)
  with emit_ops [of event payload b] show ?thesis by simp
next
  case (Resume k)
  with resume_ops [of k b] show ?thesis by simp
next
  case (React n)
  with react_ops [of n b] show ?thesis by simp
next
  case (Outside f)
  have "\<exists>ops. listenerStore b = runOps ops (listenerStore b)"
    by (rule exI [of _ "[]"]) simp
  with Outside show ?thesis by simp
qed

lemma runBus_Nil [simp]: "runBus [] b = b"
  by (simp add: runBus_def)

lemma runBus_Cons [simp]: "runBus (a # acts) b = runBus acts (act a b)"
  by (simp add: runBus_def)

lemma runBus_append: "runBus (acts @ acts') b = runBus acts' (runBus acts b)"
  by (simp add: runBus_def)

lemma runBus_ops: "\<exists>ops. listenerStore (runBus acts b) = runOps ops (listenerStore b)"
proof (induction acts arbitrary: b)
  case Nil
  show ?case by (rule exI [of _ "[]"]) simp
next
  case (Cons a acts)
  from act_ops [of a b] obtain ops1 where 1: "listenerStore (act a b) = runOps ops1 (listenerStore b)"
    by blast
  from Cons [of "act a b"] obtain ops2 where
    2: "listenerStore (runBus acts (act a b)) = runOps ops2 (listenerStore (act a b))" by blast
  from 1 2 have "listenerStore (runBus (a # acts) b) = runOps (ops1 @ ops2) (listenerStore b)"
    by (simp add: runOps_append)
  then show ?case by blast
qed

lemma createEventBus_store [simp]: "listenerStore (createEventBus w) = createListenerStore"
  by (simp add: createEventBus_def)

lemma reachable_ops:
  "\<exists>ops. listenerStore (runBus acts (createEventBus w)) = runOps ops createListenerStore"
  using runBus_ops [of acts "createEventBus w"] by simp

lemma reachable_bus_wellFormed: "wellFormed (listenerStore (runBus acts (createEventBus w)))"
proof -
  from reachable_ops [of acts w] obtain ops where
    "listenerStore (runBus acts (createEventBus w)) = runOps ops createListenerStore" by blast
  then show ?thesis by (simp add: reachable_wellFormed)
qed

section \<open>The invariant of the buckets\<close>

text \<open>
  C7. In every state that the bus can reach from its creation, by any sequence of calls
  of the store's operations, of emissions started and of later turns of these emissions
  in any order, each key of either map of the store is bound to a non-empty array, each
  stored listener's \<open>pattern\<close> is the key it is stored under, the keys of the exact map
  have no wildcard and those of the wildcard map have one, so no key lies in both maps.
\<close>

theorem buckets_invariant:
  "(\<forall>e \<in> set (exactMatches (listenerStore (runBus acts (createEventBus w)))).
      snd e \<noteq> [] \<and> \<not> hasWildcard (fst e) \<and> (\<forall>l \<in> set (snd e). pattern l = fst e)) \<and>
   (\<forall>e \<in> set (wildcardPatterns (listenerStore (runBus acts (createEventBus w)))).
      snd e \<noteq> [] \<and> hasWildcard (fst e) \<and> (\<forall>l \<in> set (snd e). pattern l = fst e)) \<and>
   distinct (map fst (exactMatches (listenerStore (runBus acts (createEventBus w))))) \<and>
   distinct (map fst (wildcardPatterns (listenerStore (runBus acts (createEventBus w))))) \<and>
   fst ` set (exactMatches (listenerStore (runBus acts (createEventBus w)))) \<inter>
     fst ` set (wildcardPatterns (listenerStore (runBus acts (createEventBus w)))) = {}"
proof -
  from reachable_ops [of acts w] obtain ops where
    eq: "listenerStore (runBus acts (createEventBus w)) = runOps ops createListenerStore" by blast
  show ?thesis unfolding eq by (rule runOps_buckets)
qed


theorem buckets_invariant_witness:
  "map fst (exactMatches (listenerStore (runBus
      [Call (Add ''x'' (\<lambda>_ w. (w, Value, 1)) noOptions 5),
       Call (Add ''u*'' (\<lambda>_ w. (w, Value, 1)) noOptions 6), Emit ''x'' (),
       Call (Add ''y'' (\<lambda>_ w. (w, Value, 1)) noOptions 7), Call (Remove ''y'' 2), Resume 0]
      (createEventBus ())))) = [''x''] \<and>
   map fst (wildcardPatterns (listenerStore (runBus
      [Call (Add ''x'' (\<lambda>_ w. (w, Value, 1)) noOptions 5),
       Call (Add ''u*'' (\<lambda>_ w. (w, Value, 1)) noOptions 6), Emit ''x'' (),
       Call (Add ''y'' (\<lambda>_ w. (w, Value, 1)) noOptions 7), Call (Remove ''y'' 2), Resume 0]
      (createEventBus ())))) = [''u*''] \<and>
   list_all (\<lambda>e. snd e \<noteq> [] \<and> list_all (\<lambda>l. pattern l = fst e) (snd e))
     (exactMatches (listenerStore (runBus
      [Call (Add ''x'' (\<lambda>_ w. (w, Value, 1)) noOptions 5),
       Call (Add ''u*'' (\<lambda>_ w. (w, Value, 1)) noOptions 6), Emit ''x'' (),
       Call (Add ''y'' (\<lambda>_ w. (w, Value, 1)) noOptions 7), Call (Remove ''y'' 2), Resume 0]
      (createEventBus ()))) @
      wildcardPatterns (listenerStore (runBus
      [Call (Add ''x'' (\<lambda>_ w. (w, Value, 1)) noOptions 5),
       Call (Add ''u*'' (\<lambda>_ w. (w, Value, 1)) noOptions 6), Emit ''x'' (),
       Call (Add ''y'' (\<lambda>_ w. (w, Value, 1)) noOptions 7), Call (Remove ''y'' 2), Resume 0]
      (createEventBus ()))))"
proof -
  let ?acts = "[Call (Add ''x'' (\<lambda>_ w. (w, Value, 1)) noOptions 5),
       Call (Add ''u*'' (\<lambda>_ w. (w, Value, 1)) noOptions 6), Emit ''x'' (),
       Call (Add ''y'' (\<lambda>_ w. (w, Value, 1)) noOptions 7), Call (Remove ''y'' 2), Resume 0]
       :: (unit, unit) action list"
  have m: "\<not> matches ''u*'' ''x''" by code_simp
  have k: "map fst (exactMatches (listenerStore (runBus ?acts (createEventBus ())))) = [''x'']"
    "map fst (wildcardPatterns (listenerStore (runBus ?acts (createEventBus ())))) = [''u*'']"
    using m
    by (simp_all add: add_def remove_def noOptions_def createListenerStore_def withoutId_def
        getMapForPattern_def setMapForPattern_def hasWildcard_def sortByPriority_def
        getOrEmpty_def mapDelete_def createEventBus_def emit_def execute_def getMatching_def
        executeHandler_def recordExecution_def updateStats_def hasId_def resume_def
        removeIds_def)
  from buckets_invariant [of ?acts "()"] k show ?thesis
    unfolding list_all_iff by auto
qed


section \<open>Removal of what is not there, in a state of the bus\<close>

text \<open>
  C8. In every state that the bus can reach, \<open>remove\<close> with a pattern and an id that are
  not stored together returns \<open>false\<close> and \<open>removeById\<close> with an id that no stored
  listener has returns \<open>undefined\<close> (\<open>None\<close>); both return the store as it was. The
  functions of the model are total and have no failing branch, as the source has no
  \<open>throw\<close> on these paths.
\<close>

theorem failed_removal_is_noop:
  "((pat, i) \<notin> set (collectAllListeners (exactMatches (listenerStore (runBus acts (createEventBus w)))) @
                     collectAllListeners (wildcardPatterns (listenerStore (runBus acts (createEventBus w)))))
      \<longrightarrow> remove pat i (listenerStore (runBus acts (createEventBus w))) =
            (False, listenerStore (runBus acts (createEventBus w)))) \<and>
   (i \<notin> set (map lid (storedListeners (listenerStore (runBus acts (createEventBus w)))))
      \<longrightarrow> removeById i (listenerStore (runBus acts (createEventBus w))) =
            (None, listenerStore (runBus acts (createEventBus w))))"
proof -
  from reachable_ops [of acts w] obtain ops where
    eq: "listenerStore (runBus acts (createEventBus w)) = runOps ops createListenerStore" by blast
  show ?thesis unfolding eq by (rule runOps_failed_removal)
qed

theorem failed_removal_is_noop_witness:
  "(''y'', 0) \<notin> set (collectAllListeners (exactMatches (listenerStore
        (runBus [Call (Add ''x'' (\<lambda>_ w. (w, Value, 1)) noOptions 5), Emit ''x'' ()]
           (createEventBus ())))) @
      collectAllListeners (wildcardPatterns (listenerStore
        (runBus [Call (Add ''x'' (\<lambda>_ w. (w, Value, 1)) noOptions 5), Emit ''x'' ()]
           (createEventBus ()))))) \<and>
   remove ''y'' 0 (listenerStore
        (runBus [Call (Add ''x'' (\<lambda>_ w. (w, Value, 1)) noOptions 5), Emit ''x'' ()]
           (createEventBus ())))
     = (False, listenerStore
        (runBus [Call (Add ''x'' (\<lambda>_ w. (w, Value, 1)) noOptions 5), Emit ''x'' ()]
           (createEventBus ()))) \<and>
   7 \<notin> set (map lid (storedListeners (listenerStore
        (runBus [Call (Add ''x'' (\<lambda>_ w. (w, Value, 1)) noOptions 5), Emit ''x'' ()]
           (createEventBus ()))))) \<and>
   removeById 7 (listenerStore
        (runBus [Call (Add ''x'' (\<lambda>_ w. (w, Value, 1)) noOptions 5), Emit ''x'' ()]
           (createEventBus ())))
     = (None, listenerStore
        (runBus [Call (Add ''x'' (\<lambda>_ w. (w, Value, 1)) noOptions 5), Emit ''x'' ()]
           (createEventBus ())))"
proof -
  let ?acts = "[Call (Add ''x'' (\<lambda>_ w. (w, Value, 1)) noOptions 5), Emit ''x'' ()]
       :: (unit, unit) action list"
  have st: "listenerStore (runBus ?acts (createEventBus ())) =
      \<lparr>exactMatches = [(''x'', [\<lparr>lid = 0, handler = (\<lambda>_ w. (w, Value, 1)), priority = 0,
         once = False, pattern = ''x'', addedAt = 5, executionCount = 1, totalDuration = 1\<rparr>])],
       wildcardPatterns = [], markedForRemoval = {}, symbols = 1\<rparr>"
    by (simp add: add_def noOptions_def createListenerStore_def createEventBus_def
        getMapForPattern_def setMapForPattern_def hasWildcard_def sortByPriority_def getOrEmpty_def
        emit_def execute_def getMatching_def executeHandler_def recordExecution_def
        updateStats_def hasId_def)
  have a: "(''y'', 0) \<notin> set (collectAllListeners (exactMatches (listenerStore (runBus ?acts (createEventBus ())))) @
      collectAllListeners (wildcardPatterns (listenerStore (runBus ?acts (createEventBus ())))))"
    unfolding st by (simp add: collectAllListeners_def)
  have b: "7 \<notin> set (map lid (storedListeners (listenerStore (runBus ?acts (createEventBus ())))))"
    unfolding st by (simp add: storedListeners_def bucketListeners_def)
  from failed_removal_is_noop [of "''y''" 0 ?acts "()"] failed_removal_is_noop [of "''y''" 7 ?acts "()"] a b
  show ?thesis by blast
qed

section \<open>\<open>removeAll\<close> with an event name, in a state of the bus\<close>

text \<open>
  C5. In every state that the bus can reach, \<open>removeAll(e)\<close> leaves exactly the stored
  listeners whose pattern differs from \<open>e\<close>, in their order. A listener registered under
  a wildcard pattern other than \<open>e\<close> that matches \<open>e\<close> is therefore still stored, and
  \<open>getMatching(e)\<close> on the store after the removal returns it.
\<close>

theorem removeAll_event_literal:
  "storedListeners (snd (removeAll (Some e) (listenerStore (runBus acts (createEventBus w))))) =
     filter (\<lambda>l. pattern l \<noteq> e) (storedListeners (listenerStore (runBus acts (createEventBus w)))) \<and>
   (\<forall>l \<in> set (storedListeners (listenerStore (runBus acts (createEventBus w)))).
      hasWildcard (pattern l) \<and> pattern l \<noteq> e \<and> matches (pattern l) e \<longrightarrow>
      l \<in> set (storedListeners (snd (removeAll (Some e) (listenerStore (runBus acts (createEventBus w)))))) \<and>
      l \<in> set (getMatching e (snd (removeAll (Some e) (listenerStore (runBus acts (createEventBus w)))))))"
proof -
  from reachable_ops [of acts w] obtain ops where
    eq: "listenerStore (runBus acts (createEventBus w)) = runOps ops createListenerStore" by blast
  show ?thesis unfolding eq by (rule runOps_removeAll_literal)
qed

theorem removeAll_event_literal_witness:
  "map lid (storedListeners (listenerStore
     (runBus [Call (Add ''user:login'' (\<lambda>_ w. (w, Value, 1)) noOptions 5),
              Call (Add ''user:*'' (\<lambda>_ w. (w, Value, 1)) noOptions 6)] (createEventBus () :: (unit, unit) eventBus))))
     = [0, 1] \<and>
   map lid (storedListeners (snd (removeAll (Some ''user:login'') (listenerStore
     (runBus [Call (Add ''user:login'' (\<lambda>_ w. (w, Value, 1)) noOptions 5),
              Call (Add ''user:*'' (\<lambda>_ w. (w, Value, 1)) noOptions 6)] (createEventBus () :: (unit, unit) eventBus))))))
     = [1] \<and>
   map lid (getMatching ''user:login'' (snd (removeAll (Some ''user:login'') (listenerStore
     (runBus [Call (Add ''user:login'' (\<lambda>_ w. (w, Value, 1)) noOptions 5),
              Call (Add ''user:*'' (\<lambda>_ w. (w, Value, 1)) noOptions 6)] (createEventBus () :: (unit, unit) eventBus))))))
     = [1]"
proof -
  let ?acts = "[Call (Add ''user:login'' (\<lambda>_ w. (w, Value, 1)) noOptions 5),
              Call (Add ''user:*'' (\<lambda>_ w. (w, Value, 1)) noOptions 6)] :: (unit, unit) action list"
  let ?s = "listenerStore (runBus ?acts (createEventBus ()))"
  have st: "?s = \<lparr>exactMatches = [(''user:login'', [\<lparr>lid = 0, handler = (\<lambda>_ w. (w, Value, 1)),
         priority = 0, once = False, pattern = ''user:login'', addedAt = 5,
         executionCount = 0, totalDuration = 0\<rparr>])],
       wildcardPatterns = [(''user:*'', [\<lparr>lid = 1, handler = (\<lambda>_ w. (w, Value, 1)),
         priority = 0, once = False, pattern = ''user:*'', addedAt = 6,
         executionCount = 0, totalDuration = 0\<rparr>])],
       markedForRemoval = {}, symbols = 2\<rparr>"
    by (simp add: add_def noOptions_def createListenerStore_def createEventBus_def
        getMapForPattern_def setMapForPattern_def hasWildcard_def sortByPriority_def getOrEmpty_def)
  have m: "matches ''user:*'' ''user:login''" by code_simp
  have a: "map lid (storedListeners ?s) = [0, 1]"
    unfolding st by (simp add: storedListeners_def bucketListeners_def)
  have b: "map lid (storedListeners (snd (removeAll (Some ''user:login'') ?s))) = [1]"
    using removeAll_event_literal [of "''user:login''" ?acts "()"]
    unfolding st by (simp add: storedListeners_def bucketListeners_def)
  have c: "map lid (getMatching ''user:login'' (snd (removeAll (Some ''user:login'') ?s))) = [1]"
    unfolding st using m
    by (simp add: removeAll_def getMatching_def mapDelete_def sortByPriority_def getOrEmpty_def)
  from a b c show ?thesis by blast
qed

section \<open>Unsubscribing from the bus\<close>

lemma subscribe_eq:
  "subscribe pat h options now b =
     (\<lambda>b'. b'\<lparr>listenerStore := snd (remove pat (symbols (listenerStore b)) (listenerStore b'))\<rparr>,
      b\<lparr>listenerStore := snd (add pat h options now (listenerStore b))\<rparr>)"
  by (simp add: subscribe_def add_newListener split: prod.splits)

text \<open>
  C9. A listener is subscribed in a state that the bus can reach. Whatever actions run
  before the first call of the returned function (\<open>acts1\<close>) and between that call and a
  later one (\<open>acts2\<close>), emissions and their later turns among them: after the first call
  no stored listener has the id of the subscription, and a later call returns the state
  of the bus as it finds it. The function is \<open>remove\<close>, which has no failing branch.
\<close>

theorem unsubscribe_idempotent:
  "let b = runBus acts (createEventBus w);
       unsubscribe = fst (subscribe pat h options now b);
       b1 = snd (subscribe pat h options now b);
       b2 = unsubscribe (runBus acts1 b1)
   in fst (add pat h options now (listenerStore b)) \<notin> set (map lid (storedListeners (listenerStore b2))) \<and>
      unsubscribe b2 = b2 \<and>
      unsubscribe (runBus acts2 b2) = runBus acts2 b2"
proof -
  let ?b = "runBus acts (createEventBus w)"
  define s where "s = listenerStore ?b"
  let ?b1 = "?b\<lparr>listenerStore := snd (add pat h options now s)\<rparr>"
  define s1 where "s1 = listenerStore (runBus acts1 ?b1)"
  define s2 where "s2 = snd (remove pat (symbols s) s1)"
  let ?u = "\<lambda>b'. b'\<lparr>listenerStore := snd (remove pat (symbols s) (listenerStore b'))\<rparr>"
  let ?b2 = "?u (runBus acts1 ?b1)"
  have st2: "listenerStore ?b2 = s2" by (simp add: s2_def s1_def)
  from reachable_ops [of acts w] obtain ops where eq: "s = runOps ops createListenerStore"
    unfolding s_def by blast
  from runBus_ops [of acts1 ?b1] obtain ops1 where
    eq1: "s1 = runOps ops1 (snd (add pat h options now s))"
    unfolding s1_def by auto
  from runBus_ops [of acts2 ?b2] obtain ops2 where
    eq2: "listenerStore (runBus acts2 ?b2) = runOps ops2 s2"
    unfolding st2 by blast
  have f: "fst (add pat h options now s) = symbols s \<and>
      symbols s \<notin> set (map lid (storedListeners s2)) \<and>
      snd (remove pat (symbols s) s2) = s2 \<and>
      snd (remove pat (symbols s) (runOps ops2 s2)) = runOps ops2 s2"
    unfolding s2_def eq1 eq
    using runOps_unsubscribe [of ops pat h options now ops1 ops2, unfolded Let_def] .
  have 0: "fst (add pat h options now s) \<notin> set (map lid (storedListeners (listenerStore ?b2)))"
    unfolding st2 using f by simp
  have 1: "?u ?b2 = ?b2"
  proof -
    have "snd (remove pat (symbols s) (listenerStore ?b2)) = listenerStore ?b2"
      unfolding st2 using f by simp
    then show ?thesis by simp
  qed
  have 2: "?u (runBus acts2 ?b2) = runBus acts2 ?b2"
  proof -
    have "snd (remove pat (symbols s) (listenerStore (runBus acts2 ?b2))) =
        listenerStore (runBus acts2 ?b2)"
      unfolding eq2 using f by simp
    then show ?thesis by simp
  qed
  from 0 1 2 show ?thesis
    unfolding Let_def subscribe_eq fst_conv snd_conv s_def by blast
qed


theorem unsubscribe_idempotent_witness:
  "map lid (storedListeners (listenerStore
     (snd (subscribe ''x'' (\<lambda>_ w. (w, Value, 1)) noOptions 5
        (createEventBus () :: (unit, unit) eventBus))))) = [0] \<and>
   storedListeners (listenerStore
     (fst (subscribe ''x'' (\<lambda>_ w. (w, Value, 1)) noOptions 5
        (createEventBus () :: (unit, unit) eventBus))
        (snd (subscribe ''x'' (\<lambda>_ w. (w, Value, 1)) noOptions 5 (createEventBus ()))))) = [] \<and>
   fst (subscribe ''x'' (\<lambda>_ w. (w, Value, 1)) noOptions 5
        (createEventBus () :: (unit, unit) eventBus))
     (fst (subscribe ''x'' (\<lambda>_ w. (w, Value, 1)) noOptions 5
        (createEventBus () :: (unit, unit) eventBus))
        (snd (subscribe ''x'' (\<lambda>_ w. (w, Value, 1)) noOptions 5 (createEventBus ())))) =
   fst (subscribe ''x'' (\<lambda>_ w. (w, Value, 1)) noOptions 5
        (createEventBus () :: (unit, unit) eventBus))
        (snd (subscribe ''x'' (\<lambda>_ w. (w, Value, 1)) noOptions 5 (createEventBus ())))"
proof -
  let ?sub = "subscribe ''x'' (\<lambda>_ w. (w, Value, 1)) noOptions 5
        (createEventBus () :: (unit, unit) eventBus)"
  have a: "map lid (storedListeners (listenerStore (snd ?sub))) = [0]"
    by (simp add: subscribe_def add_def noOptions_def createListenerStore_def createEventBus_def
        getMapForPattern_def setMapForPattern_def hasWildcard_def sortByPriority_def
        getOrEmpty_def storedListeners_def bucketListeners_def)
  have b: "storedListeners (listenerStore (fst ?sub (snd ?sub))) = []"
    by (simp add: subscribe_def add_def remove_def noOptions_def createListenerStore_def
        createEventBus_def
        getMapForPattern_def setMapForPattern_def hasWildcard_def sortByPriority_def
        getOrEmpty_def storedListeners_def bucketListeners_def withoutId_def mapDelete_def)
  from unsubscribe_idempotent [of "[]" "()" "''x''" "\<lambda>_ w. (w, Value, 1)" noOptions 5 "[]" "[]"]
  have "fst ?sub (fst ?sub (snd ?sub)) = fst ?sub (snd ?sub)"
    unfolding Let_def runBus_Nil by blast
  with a b show ?thesis by simp
qed

section \<open>Failing handlers\<close>

lemma distinct_getMatching:
  "distinct (map lid (storedListeners s)) \<Longrightarrow> distinct (map lid (getMatching event s))"
  using mset_getMatching_sub by (rule distinct_map_sub)


lemma failure_goes_on_sync:
  assumes "returnedBy l payload (world b) = Throws"
  shows "executeLoop payload (l # rest) acc b =
           executeLoop payload rest acc (b\<lparr>world := fst (handler l payload (world b))\<rparr>)"
proof -
  have "fst (executeHandler payload l b) = b\<lparr>world := fst (handler l payload (world b))\<rparr>"
    using assms
    by (auto simp: executeHandler_def returnedBy_def split: prod.splits returned.splits)
  with assms show ?thesis by (simp add: executeLoop_Cons del: executeLoop.simps(2))
qed

lemma failure_goes_on_async:
  assumes "returnedBy l payload (world b) = NativePromise Rejects"
  shows "executeLoop payload (l # rest) acc b =
           (b\<lparr>world := fst (handler l payload (world b))\<rparr>,
            Awaiting l Rejects (snd (snd (handler l payload (world b)))) rest acc) \<and>
         settle payload (b2, Awaiting l Rejects d rest acc) = executeLoop payload rest acc b2"
proof -
  have "fst (executeHandler payload l b) = b\<lparr>world := fst (handler l payload (world b))\<rparr>"
    using assms
    by (auto simp: executeHandler_def returnedBy_def split: prod.splits returned.splits)
  with assms show ?thesis by (simp add: executeLoop_Cons settle_def del: executeLoop.simps(2))
qed

lemma empty_then_rejects:
  assumes "returnedBy l payload (world b) = EmptyThen"
  shows "snd (execute payload (l # rest) b) = Failed"
  using assms by (simp add: execute_def executeLoop_Cons del: executeLoop.simps(2))





lemma worldAfter_take_Suc:
  "worldAfter payload (take (Suc j) (l # ls)) w =
     worldAfter payload (take j ls) (fst (handler l payload w))"
  by simp


lemma removedIn_mem_conv:
  assumes "j < length ls" and "once (ls ! j)"
    and "succeeds (returnedBy (ls ! j) payload (worldAfter payload (take j ls) w))"
  shows "lid (ls ! j) \<in> set (removedIn payload ls w)"
  using assms
proof (induction ls arbitrary: w j)
  case Nil
  then show ?case by simp
next
  case (Cons l ls)
  show ?case
  proof (cases j)
    case 0
    with Cons.prems show ?thesis by simp
  next
    case (Suc j')
    with Cons.prems Cons.IH [of j' "fst (handler l payload w)"] show ?thesis by simp
  qed
qed


lemma resume_settled:
  assumes "k < length (tasks b)" and "tasks b ! k = EmitFulfilled"
  shows "(resume k ^^ n) b = b"
proof (induction n)
  case 0
  show ?case by simp
next
  case (Suc n)
  have "resume k b = b" using assms by (simp add: resume_def)
  with Suc show ?case by (simp add: funpow_swap1)
qed

lemma resume_Completed:
  assumes "k < length ts" and "ts ! k = Pending payload (Completed ids)"
  shows "(resume k ^^ Suc n) (b\<lparr>tasks := ts\<rparr>) =
           b\<lparr>listenerStore := removeIds ids (listenerStore b), tasks := ts[k := EmitFulfilled]\<rparr>"
proof -
  let ?b' = "b\<lparr>listenerStore := removeIds ids (listenerStore b), tasks := ts[k := EmitFulfilled]\<rparr>"
  have "resume k (b\<lparr>tasks := ts\<rparr>) = ?b'" using assms by (simp add: resume_def)
  moreover have "(resume k ^^ n) ?b' = ?b'"
    using assms(1) by (intro resume_settled) simp_all
  ultimately show ?thesis by (simp add: funpow_swap1)
qed

lemma resume_Awaiting:
  assumes "k < length ts" and "ts ! k = Pending payload (Awaiting l st d rest acc)"
  shows "resume k (b\<lparr>tasks := ts\<rparr>) =
           (fst (settle payload (b\<lparr>tasks := ts\<rparr>, Awaiting l st d rest acc)))
             \<lparr>tasks := ts[k := Pending payload
                 (snd (settle payload (b\<lparr>tasks := ts\<rparr>, Awaiting l st d rest acc)))]\<rparr>"
proof -
  obtain b' running where
    s: "settle payload (b\<lparr>tasks := ts\<rparr>, Awaiting l st d rest acc) = (b', running)"
    by (cases "settle payload (b\<lparr>tasks := ts\<rparr>, Awaiting l st d rest acc)")
  have "tasks b' = ts"
    using settle_facts [of payload "(b\<lparr>tasks := ts\<rparr>, Awaiting l st d rest acc)"] s by simp
  with assms s show ?thesis by (simp add: resume_def)
qed

lemma resume_executeLoop:
  assumes "\<forall>l \<in> set ls. \<forall>w. goesOn (returnedBy l payload w)" and "length ls \<le> n"
    and "k < length ts" and "ts ! k = Pending payload (snd (executeLoop payload ls acc b))"
  shows "\<exists>b'. (resume k ^^ Suc n) ((fst (executeLoop payload ls acc b))\<lparr>tasks := ts\<rparr>) =
                 b'\<lparr>listenerStore :=
                      removeIds (acc @ removedIn payload ls (world b)) (listenerStore b'),
                    tasks := ts[k := EmitFulfilled]\<rparr> \<and>
              world b' = worldAfter payload ls (world b) \<and>
              sameRegistrations (listenerStore b') (listenerStore b)"
  using assms
proof (induction ls arbitrary: acc b n ts)
  case Nil
  from Nil.prems(3,4) have
    "(resume k ^^ Suc n) (b\<lparr>tasks := ts\<rparr>) =
       b\<lparr>listenerStore := removeIds acc (listenerStore b), tasks := ts[k := EmitFulfilled]\<rparr>"
    by (intro resume_Completed) simp_all
  then have "(resume k ^^ Suc n) ((fst (executeLoop payload [] acc b))\<lparr>tasks := ts\<rparr>) =
       b\<lparr>listenerStore := removeIds (acc @ removedIn payload [] (world b)) (listenerStore b),
         tasks := ts[k := EmitFulfilled]\<rparr> \<and>
       world b = worldAfter payload [] (world b) \<and>
       sameRegistrations (listenerStore b) (listenerStore b)"
    by simp
  then show ?case by (rule exI [of _ b])
next
  case (Cons l ls)
  let ?b1 = "fst (executeHandler payload l b)"
  let ?w1 = "fst (handler l payload (world b))"
  let ?d = "snd (snd (handler l payload (world b)))"
  have w1: "world ?b1 = ?w1" by (rule executeHandler_world)
  have s1: "sameRegistrations (listenerStore ?b1) (listenerStore b)" by (rule executeHandler_same)
  have goes: "\<forall>l \<in> set ls. \<forall>w. goesOn (returnedBy l payload w)" using Cons.prems(1) by simp
  have g: "goesOn (returnedBy l payload (world b))" using Cons.prems(1) by simp
  have len: "length ls \<le> n" using Cons.prems(2) by simp
  have sync: "\<exists>b'. (resume k ^^ Suc n) ((fst (executeLoop payload (l # ls) acc b))\<lparr>tasks := ts\<rparr>) =
                 b'\<lparr>listenerStore :=
                      removeIds (acc @ removedIn payload (l # ls) (world b)) (listenerStore b'),
                    tasks := ts[k := EmitFulfilled]\<rparr> \<and>
              world b' = worldAfter payload (l # ls) (world b) \<and>
              sameRegistrations (listenerStore b') (listenerStore b)"
    if eq: "executeLoop payload (l # ls) acc b = executeLoop payload ls acc' ?b1"
      and acc': "acc @ removedIn payload (l # ls) (world b) = acc' @ removedIn payload ls ?w1"
    for acc'
  proof -
    from Cons.prems(4) have t: "ts ! k = Pending payload (snd (executeLoop payload ls acc' ?b1))"
      unfolding eq .
    from Cons.IH [OF goes len Cons.prems(3) t] obtain b' where
      1: "(resume k ^^ Suc n) ((fst (executeLoop payload ls acc' ?b1))\<lparr>tasks := ts\<rparr>) =
                 b'\<lparr>listenerStore :=
                      removeIds (acc' @ removedIn payload ls (world ?b1)) (listenerStore b'),
                    tasks := ts[k := EmitFulfilled]\<rparr>"
      and 2: "world b' = worldAfter payload ls (world ?b1)"
      and 3: "sameRegistrations (listenerStore b') (listenerStore ?b1)"
      by blast
    from 1 have "(resume k ^^ Suc n) ((fst (executeLoop payload (l # ls) acc b))\<lparr>tasks := ts\<rparr>) =
                 b'\<lparr>listenerStore :=
                      removeIds (acc @ removedIn payload (l # ls) (world b)) (listenerStore b'),
                    tasks := ts[k := EmitFulfilled]\<rparr>"
      unfolding eq acc' w1 .
    moreover from 2 have "world b' = worldAfter payload (l # ls) (world b)"
      unfolding w1 by simp
    moreover have "sameRegistrations (listenerStore b') (listenerStore b)"
      using 3 s1 by (rule sameRegistrations_trans)
    ultimately show ?thesis by blast
  qed
  show ?case
  proof (cases "returnedBy l payload (world b)")
    case Throws
    then show ?thesis
      by (intro sync [of acc]) (simp_all add: executeLoop_Cons succeeds_def del: executeLoop.simps(2))
  next
    case Value
    then show ?thesis
      by (intro sync [of "if once l then acc @ [lid l] else acc"])
        (simp_all add: executeLoop_Cons succeeds_def del: executeLoop.simps(2))
  next
    case (ForeignPromise st)
    then show ?thesis
      by (intro sync [of acc]) (simp_all add: executeLoop_Cons succeeds_def del: executeLoop.simps(2))
  next
    case BrokenThen
    then show ?thesis
      by (intro sync [of acc]) (simp_all add: executeLoop_Cons succeeds_def del: executeLoop.simps(2))
  next
    case EmptyThen
    with g show ?thesis by (simp add: goesOn_def)
  next
    case (NativePromise st)
    from Cons.prems(2) obtain m where n: "n = Suc m" and m: "length ls \<le> m"
      by (cases n) simp_all
    have start: "executeLoop payload (l # ls) acc b = (?b1, Awaiting l st ?d ls acc)"
      using NativePromise by (simp add: executeLoop_Cons del: executeLoop.simps(2))
    from g NativePromise have st: "st \<noteq> NeverSettles" by (simp add: goesOn_def)
    let ?B = "?b1\<lparr>tasks := ts\<rparr>"
    let ?acc = "if st = Resolves \<and> once l then acc @ [lid l] else acc"
    let ?Bx = "if st = Resolves then recordExecution (lid l) ?d ?B else ?B"
    have tk: "ts ! k = Pending payload (Awaiting l st ?d ls acc)"
      using Cons.prems(4) unfolding start by simp
    have se: "settle payload (?B, Awaiting l st ?d ls acc) = executeLoop payload ls ?acc ?Bx"
      using st by (cases st) (simp_all add: settle_def)
    let ?X = "executeLoop payload ls ?acc ?Bx"
    let ?ts = "ts[k := Pending payload (snd ?X)]"
    have r1: "resume k ?B = (fst ?X)\<lparr>tasks := ?ts\<rparr>"
      using resume_Awaiting [OF Cons.prems(3) tk, of ?b1] unfolding se .
    have k': "k < length ?ts" using Cons.prems(3) by simp
    have t': "?ts ! k = Pending payload (snd ?X)" using Cons.prems(3) by simp
    from Cons.IH [OF goes m k' t'] obtain b' where
      1: "(resume k ^^ Suc m) ((fst ?X)\<lparr>tasks := ?ts\<rparr>) =
                 b'\<lparr>listenerStore :=
                      removeIds (?acc @ removedIn payload ls (world ?Bx)) (listenerStore b'),
                    tasks := ?ts[k := EmitFulfilled]\<rparr>"
      and 2: "world b' = worldAfter payload ls (world ?Bx)"
      and 3: "sameRegistrations (listenerStore b') (listenerStore ?Bx)"
      by blast
    have wx: "world ?Bx = ?w1" using w1 by simp
    have sx: "sameRegistrations (listenerStore ?Bx) (listenerStore b)"
    proof -
      have "sameRegistrations (listenerStore ?Bx) (listenerStore ?b1)"
        by (simp add: updateStats_same)
      then show ?thesis using s1 by (rule sameRegistrations_trans)
    qed
    have accs: "acc @ removedIn payload (l # ls) (world b) = ?acc @ removedIn payload ls ?w1"
      using NativePromise st by (cases st) (simp_all add: succeeds_def)
    have "(resume k ^^ Suc n) ((fst (executeLoop payload (l # ls) acc b))\<lparr>tasks := ts\<rparr>) =
        (resume k ^^ Suc m) (resume k ?B)"
      unfolding n start by (simp add: funpow_swap1)
    also have "\<dots> = b'\<lparr>listenerStore :=
                      removeIds (acc @ removedIn payload (l # ls) (world b)) (listenerStore b'),
                    tasks := ts[k := EmitFulfilled]\<rparr>"
      unfolding r1 1 accs wx by simp
    finally have "(resume k ^^ Suc n) ((fst (executeLoop payload (l # ls) acc b))\<lparr>tasks := ts\<rparr>) =
        b'\<lparr>listenerStore :=
                      removeIds (acc @ removedIn payload (l # ls) (world b)) (listenerStore b'),
                    tasks := ts[k := EmitFulfilled]\<rparr>" .
    moreover have "world b' = worldAfter payload (l # ls) (world b)"
      using 2 unfolding wx by simp
    moreover have "sameRegistrations (listenerStore b') (listenerStore b)"
      using 3 sx by (rule sameRegistrations_trans)
    ultimately show ?thesis by blast
  qed
qed

lemma runBus_replicate: "runBus (replicate n (Resume k)) b = (resume k ^^ n) b"
  by (induction n arbitrary: b) (simp_all add: funpow_swap1)

lemma awaitedEmit_eq:
  assumes "\<forall>l \<in> set (getMatching event (listenerStore b)). \<forall>w. goesOn (returnedBy l payload w)"
  shows "\<exists>b'. awaitedEmit event payload b =
                 b'\<lparr>listenerStore :=
                      removeIds (removedIn payload (getMatching event (listenerStore b)) (world b))
                        (listenerStore b'),
                    tasks := tasks b @ [EmitFulfilled]\<rparr> \<and>
              world b' = worldAfter payload (getMatching event (listenerStore b)) (world b) \<and>
              sameRegistrations (listenerStore b') (listenerStore b)"
proof -
  let ?ls = "getMatching event (listenerStore b)"
  let ?X = "executeLoop payload ?ls [] b"
  let ?ts = "tasks b @ [Pending payload (snd ?X)]"
  let ?k = "length (tasks b)"
  have tX: "tasks (fst ?X) = tasks b" using executeLoop_facts [of payload ?ls "[]" b] by simp
  have em: "emit event payload b = (fst ?X)\<lparr>tasks := ?ts\<rparr>"
  proof -
    obtain b1 running where x: "?X = (b1, running)" by (cases ?X)
    with tX have "tasks b1 = tasks b" by simp
    with x show ?thesis by (simp add: emit_def execute_def Let_def)
  qed
  have aw: "awaitedEmit event payload b = (resume ?k ^^ Suc (length ?ls)) ((fst ?X)\<lparr>tasks := ?ts\<rparr>)"
    unfolding awaitedEmit_def runBus_Cons act.simps runBus_replicate em ..
  have k: "?k < length ?ts" by simp
  have t: "?ts ! ?k = Pending payload (snd ?X)" by simp
  from resume_executeLoop [OF assms order_refl k t] obtain b' where
    1: "(resume ?k ^^ Suc (length ?ls)) ((fst ?X)\<lparr>tasks := ?ts\<rparr>) =
          b'\<lparr>listenerStore := removeIds ([] @ removedIn payload ?ls (world b)) (listenerStore b'),
             tasks := ?ts[?k := EmitFulfilled]\<rparr>"
    and 2: "world b' = worldAfter payload ?ls (world b)"
    and 3: "sameRegistrations (listenerStore b') (listenerStore b)"
    by blast
  have "awaitedEmit event payload b =
      b'\<lparr>listenerStore := removeIds (removedIn payload ?ls (world b)) (listenerStore b'),
         tasks := tasks b @ [EmitFulfilled]\<rparr>"
    unfolding aw 1 by simp
  with 2 3 show ?thesis by blast
qed




section \<open>One-shot listeners and emissions that are awaited\<close>

lemma retired_getMatching:
  "retired i s \<Longrightarrow> i \<notin> set (map lid (getMatching event s))"
  using set_getMatching_sub [of event s] by (auto simp: retired_def)

lemma awaitedEmit_reachable:
  "awaitedEmit event payload (runBus acts (createEventBus w0)) =
     runBus (acts @ Emit event payload #
               replicate (Suc (length (getMatching event
                  (listenerStore (runBus acts (createEventBus w0))))))
                 (Resume (length (tasks (runBus acts (createEventBus w0))))))
       (createEventBus w0)"
  by (simp add: awaitedEmit_def runBus_append)

text \<open>
  What holds of a listener with \<open>once\<close> when the emission is awaited before anything else
  is done to the bus, and the handler returns normally or returns a native promise that
  is fulfilled: the emission removes it, and no later \<open>getMatching\<close> returns it,
  whatever the bus does afterwards.
\<close>

lemma once_listener_retired_when_awaited:
  assumes b: "b = runBus acts (createEventBus w0)"
    and ls: "listeners = getMatching event (listenerStore b)"
    and goes: "\<forall>l \<in> set listeners. \<forall>w. goesOn (returnedBy l payload w)"
    and n: "n < length listeners" and o: "once (listeners ! n)"
    and ok: "succeeds (returnedBy (listeners ! n) payload
                         (worldAfter payload (take n listeners) (world b)))"
  shows "lid (listeners ! n) \<notin>
           set (map lid (getMatching event'
                  (listenerStore (runBus later (awaitedEmit event payload b)))))"
proof -
  let ?i = "lid (listeners ! n)"
  let ?ids = "removedIn payload listeners (world b)"
  have wf: "wellFormed (listenerStore b)" unfolding b by (rule reachable_bus_wellFormed)
  from awaitedEmit_eq [of event b payload] goes obtain b' where
    1: "awaitedEmit event payload b =
          b'\<lparr>listenerStore := removeIds ?ids (listenerStore b'),
             tasks := tasks b @ [EmitFulfilled]\<rparr>"
    and 3: "sameRegistrations (listenerStore b') (listenerStore b)"
    unfolding ls by blast
  have inv: "storeInv (listenerStore b')"
    using 3 wf by (simp add: wellFormed_def sameRegistrations_storeInv)
  have d: "distinct (map lid (storedListeners (listenerStore b')))"
    unfolding sameRegistrations_ids [OF 3] using wf by (simp add: wellFormed_def idsOk_def)
  have "?i \<in> set ?ids" using n o ok by (rule removedIn_mem_conv)
  with inv d have gone: "?i \<notin> lid ` set (storedListeners (removeIds ?ids (listenerStore b')))"
    by (rule removeIds_removes)
  have "listeners ! n \<in> set (storedListeners (listenerStore b))"
    using n set_getMatching_sub [of event "listenerStore b"] unfolding ls by auto
  then have "?i < symbols (listenerStore b)"
    using wf by (auto simp: wellFormed_def idsOk_def list_all_iff)
  then have "?i < symbols (removeIds ?ids (listenerStore b'))"
    by (simp add: removeIds_symbols [OF inv] sameRegistrations_symbols [OF 3])
  with gone have ret: "retired ?i (listenerStore (awaitedEmit event payload b))"
    unfolding 1 by (simp add: retired_def)
  have wf': "wellFormed (listenerStore (awaitedEmit event payload b))"
    unfolding b awaitedEmit_reachable by (rule reachable_bus_wellFormed)
  from runBus_ops [of later "awaitedEmit event payload b"] obtain ops where
    eq: "listenerStore (runBus later (awaitedEmit event payload b)) =
           runOps ops (listenerStore (awaitedEmit event payload b))" by blast
  have "retired ?i (listenerStore (runBus later (awaitedEmit event payload b)))"
    unfolding eq using wf' ret by (rule runOps_retired)
  then show ?thesis by (rule retired_getMatching)
qed

section \<open>One-shot listeners and emissions that overlap\<close>

text \<open>
  C3. A listener is registered with \<open>once\<close> for the event \<open>x\<close>; its handler returns
  normally and counts its calls in the world. \<open>emit\<close> is called twice for \<open>x\<close> and
  the second call is made before the first emission has taken its later turn, as in
  \<open>bus.emit('x', p); bus.emit('x', p)\<close>: after the first call the listener is still
  returned by \<open>getMatching\<close>, the handler is called by both emissions, and both
  promises are fulfilled. When the second call is made after the later turn of the first
  emission, as in \<open>await bus.emit('x', p); await bus.emit('x', p)\<close>, the handler is
  called once. A handler that returns a fulfilled promise of another realm is called
  twice even then, and its listener stays registered: \<open>execute\<close> does not await that
  promise and reads \<open>shouldRemove\<close> from it.
\<close>

theorem once_listener_called_twice:
  "map lid (getMatching ''x'' (listenerStore (runBus
      [Call (Add ''x'' (\<lambda>_ n. (Suc n, Value, 0)) \<lparr>priorityOpt = None, onceOpt = Some True\<rparr> 5),
       Emit ''x'' ()] (createEventBus 0)))) = [0] \<and>
   world (runBus
      [Call (Add ''x'' (\<lambda>_ n. (Suc n, Value, 0)) \<lparr>priorityOpt = None, onceOpt = Some True\<rparr> 5),
       Emit ''x'' (), Emit ''x'' (), Resume 0, Resume 1] (createEventBus 0)) = 2 \<and>
   tasks (runBus
      [Call (Add ''x'' (\<lambda>_ n. (Suc n, Value, 0)) \<lparr>priorityOpt = None, onceOpt = Some True\<rparr> 5),
       Emit ''x'' (), Emit ''x'' (), Resume 0, Resume 1] (createEventBus 0)) =
     [EmitFulfilled, EmitFulfilled] \<and>
   world (runBus
      [Call (Add ''x'' (\<lambda>_ n. (Suc n, Value, 0)) \<lparr>priorityOpt = None, onceOpt = Some True\<rparr> 5),
       Emit ''x'' (), Resume 0, Emit ''x'' (), Resume 1] (createEventBus 0)) = 1 \<and>
   world (runBus
      [Call (Add ''x'' (\<lambda>_ n. (Suc n, ForeignPromise Resolves, 0))
               \<lparr>priorityOpt = None, onceOpt = Some True\<rparr> 5),
       Emit ''x'' (), Resume 0, React 0, Emit ''x'' (), Resume 1, React 0] (createEventBus 0)) = 2 \<and>
   map lid (storedListeners (listenerStore (runBus
      [Call (Add ''x'' (\<lambda>_ n. (Suc n, ForeignPromise Resolves, 0))
               \<lparr>priorityOpt = None, onceOpt = Some True\<rparr> 5),
       Emit ''x'' (), Resume 0, React 0, Emit ''x'' (), Resume 1, React 0] (createEventBus 0)))) = [0]"
proof -
  note defs = add_def createListenerStore_def createEventBus_def
        getMapForPattern_def setMapForPattern_def hasWildcard_def sortByPriority_def getOrEmpty_def
        emit_def execute_def getMatching_def executeHandler_def recordExecution_def
        updateStats_def hasId_def resume_def react_def removeIds_def removeById_def
        removeListenerById_def withoutId_def mapDelete_def settle_def
        storedListeners_def bucketListeners_def
  let ?h = "\<lambda>(_ :: unit) (n :: nat). (Suc n, Value, 0 :: int)"
  let ?f = "\<lambda>(_ :: unit) (n :: nat). (Suc n, ForeignPromise Resolves, 0 :: int)"
  let ?o = "\<lparr>priorityOpt = None, onceOpt = Some True\<rparr>"
  have 1: "map lid (getMatching ''x'' (listenerStore (runBus
      [Call (Add ''x'' ?h ?o 5), Emit ''x'' ()] (createEventBus 0)))) = [0]"
    by (simp add: defs)
  have 2: "world (runBus [Call (Add ''x'' ?h ?o 5), Emit ''x'' (), Emit ''x'' (), Resume 0, Resume 1]
      (createEventBus 0)) = 2"
    by (simp add: defs)
  have 3: "tasks (runBus [Call (Add ''x'' ?h ?o 5), Emit ''x'' (), Emit ''x'' (), Resume 0, Resume 1]
      (createEventBus 0)) = [EmitFulfilled, EmitFulfilled]"
    by (simp add: defs)
  have 4: "world (runBus [Call (Add ''x'' ?h ?o 5), Emit ''x'' (), Resume 0, Emit ''x'' (), Resume 1]
      (createEventBus 0)) = 1"
    by (simp add: defs)
  have 5: "world (runBus [Call (Add ''x'' ?f ?o 5), Emit ''x'' (), Resume 0, React 0, Emit ''x'' (),
      Resume 1, React 0] (createEventBus 0)) = 2"
    by (simp add: defs)
  have 6: "map lid (storedListeners (listenerStore (runBus [Call (Add ''x'' ?f ?o 5), Emit ''x'' (),
      Resume 0, React 0, Emit ''x'' (), Resume 1, React 0] (createEventBus 0)))) = [0]"
    by (simp add: defs)
  from 1 2 3 4 5 6 show ?thesis by (intro conjI)
qed

section \<open>The summaries of \<open>getAll\<close>\<close>

lemma addMatchingToResult_entries:
  "(pat, infos) \<in> set (addMatchingToResult m r event) \<Longrightarrow>
   (pat, infos) \<in> set r \<or> (\<exists>ls. (pat, ls) \<in> set m \<and> infos = mapListeners ls)"
proof (induction m r event rule: addMatchingToResult.induct)
  case (1 result event)
  then show ?case by simp
next
  case (2 p listeners m result event)
  from "2.IH" [OF "2.prems" [simplified]]
  show ?case using set_mapSet [of result p "mapListeners listeners"]
    by (auto split: if_splits)
qed

lemma getAll_entries:
  assumes "(pat, infos) \<in> set (getAll event s)"
  shows "\<exists>ls. (pat, ls) \<in> set (exactMatches s @ wildcardPatterns s) \<and> infos = mapListeners ls"
  using addMatchingToResult_entries [OF assms [unfolded getAll_def]]
    addMatchingToResult_entries [of pat infos "exactMatches s" "[]" event]
  by auto

lemma numberDivide_zero: "numberDivide a 0 \<in> {NaN, PosInfinity, NegInfinity}"
  by (simp add: numberDivide_def)

lemma numberDivide_positive:
  "0 < b \<Longrightarrow> numberDivide a b = Nearest (real_of_int a / real b)"
  by (simp add: numberDivide_def)

text \<open>
  C10. Every summary in the result of \<open>getAll\<close> belongs to a stored listener. When that
  listener's \<open>executionCount\<close> is 0, its \<open>avgDuration\<close> is the number 0 and not what the
  division of \<open>totalDuration\<close> by \<open>executionCount\<close> would return, which is \<open>NaN\<close> or an
  infinity: the division is not made. Otherwise \<open>avgDuration\<close> is the result of that
  division, the double nearest to the exact quotient. In both cases it is neither \<open>NaN\<close>
  nor infinite.
\<close>

theorem getAll_avgDuration:
  assumes "(pat, infos) \<in> set (getAll event s)" and "info \<in> set infos"
  shows "\<exists>l \<in> set (storedListeners s).
           infoId info = lid l \<and> infoExecutionCount info = executionCount l \<and>
           avgDuration info =
             (if executionCount l = 0 then Nearest 0
              else numberDivide (totalDuration l) (executionCount l)) \<and>
           avgDuration info =
             (if executionCount l = 0 then Nearest 0
              else Nearest (real_of_int (totalDuration l) / real (executionCount l))) \<and>
           (executionCount l = 0 \<longrightarrow>
              avgDuration info \<noteq> numberDivide (totalDuration l) (executionCount l)) \<and>
           avgDuration info \<notin> {NaN, PosInfinity, NegInfinity}"
proof -
  from getAll_entries [OF assms(1)] obtain ls where
    ls: "(pat, ls) \<in> set (exactMatches s @ wildcardPatterns s)" and infos: "infos = mapListeners ls"
    by blast
  from assms(2) infos obtain l where l: "l \<in> set ls" and
    info: "info = \<lparr>infoId = lid l, infoPriority = priority l, infoOnce = once l,
               infoPattern = pattern l, infoAddedAt = addedAt l,
               infoExecutionCount = executionCount l,
               avgDuration = (if executionCount l > 0
                              then numberDivide (totalDuration l) (executionCount l)
                              else Nearest 0)\<rparr>"
    by (auto simp: mapListeners_def)
  from ls l have mem: "l \<in> set (storedListeners s)"
    unfolding set_storedListeners by force
  have a1: "infoId info = lid l" and a2: "infoExecutionCount info = executionCount l"
    by (simp_all add: info)
  have a3: "avgDuration info =
             (if executionCount l = 0 then Nearest 0
              else numberDivide (totalDuration l) (executionCount l))"
    by (simp add: info)
  have a4: "avgDuration info =
             (if executionCount l = 0 then Nearest 0
              else Nearest (real_of_int (totalDuration l) / real (executionCount l)))"
    by (simp add: info numberDivide_def)
  have a5: "executionCount l = 0 \<longrightarrow>
      avgDuration info \<noteq> numberDivide (totalDuration l) (executionCount l)"
    by (simp add: info numberDivide_def)
  have a6: "avgDuration info \<notin> {NaN, PosInfinity, NegInfinity}"
    by (simp add: info numberDivide_def)
  show ?thesis
  proof (rule bexI [of _ l])
    show "l \<in> set (storedListeners s)" by (rule mem)
    show "infoId info = lid l \<and> infoExecutionCount info = executionCount l \<and>
           avgDuration info =
             (if executionCount l = 0 then Nearest 0
              else numberDivide (totalDuration l) (executionCount l)) \<and>
           avgDuration info =
             (if executionCount l = 0 then Nearest 0
              else Nearest (real_of_int (totalDuration l) / real (executionCount l))) \<and>
           (executionCount l = 0 \<longrightarrow>
              avgDuration info \<noteq> numberDivide (totalDuration l) (executionCount l)) \<and>
           avgDuration info \<notin> {NaN, PosInfinity, NegInfinity}"
      by (intro conjI a1 a2 a3 a4 a5 a6)
  qed
qed

theorem getAll_avgDuration_witness:
  "(''y'', [\<lparr>infoId = 1, infoPriority = 0, infoOnce = False, infoPattern = ''y'',
            infoAddedAt = 6, infoExecutionCount = 0, avgDuration = Nearest 0\<rparr>])
     \<in> set (getAll None
          (runOps [Add ''x'' () noOptions 5, Add ''y'' () noOptions 6,
                   UpdateStats 0 3, UpdateStats 0 4] createListenerStore)) \<and>
   (''x'', [\<lparr>infoId = 0, infoPriority = 0, infoOnce = False, infoPattern = ''x'',
            infoAddedAt = 5, infoExecutionCount = 2, avgDuration = Nearest (7 / 2)\<rparr>])
     \<in> set (getAll None
          (runOps [Add ''x'' () noOptions 5, Add ''y'' () noOptions 6,
                   UpdateStats 0 3, UpdateStats 0 4] createListenerStore)) \<and>
   (\<exists>l \<in> set (storedListeners
          (runOps [Add ''x'' () noOptions 5, Add ''y'' () noOptions 6,
                   UpdateStats 0 3, UpdateStats 0 4] createListenerStore)).
      lid l = 1 \<and> executionCount l = 0 \<and>
      Nearest 0 \<noteq> numberDivide (totalDuration l) (executionCount l)) \<and>
   (\<exists>l \<in> set (storedListeners
          (runOps [Add ''x'' () noOptions 5, Add ''y'' () noOptions 6,
                   UpdateStats 0 3, UpdateStats 0 4] createListenerStore)).
      lid l = 0 \<and> executionCount l = 2 \<and>
      Nearest (7 / 2) = numberDivide (totalDuration l) (executionCount l))"
proof -
  let ?s = "runOps [Add ''x'' () noOptions 5, Add ''y'' () noOptions 6,
                   UpdateStats 0 3, UpdateStats 0 4] createListenerStore"
  let ?i = "\<lparr>infoId = 1, infoPriority = 0, infoOnce = False, infoPattern = ''y'',
            infoAddedAt = 6, infoExecutionCount = 0, avgDuration = Nearest 0\<rparr>"
  let ?j = "\<lparr>infoId = 0, infoPriority = 0, infoOnce = False, infoPattern = ''x'',
            infoAddedAt = 5, infoExecutionCount = 2, avgDuration = Nearest (7 / 2)\<rparr>"
  have st: "?s = \<lparr>exactMatches =
       [(''x'', [\<lparr>lid = 0, handler = (), priority = 0,
           once = False, pattern = ''x'', addedAt = 5, executionCount = 2, totalDuration = 7\<rparr>]),
        (''y'', [\<lparr>lid = 1, handler = (), priority = 0,
           once = False, pattern = ''y'', addedAt = 6, executionCount = 0, totalDuration = 0\<rparr>])],
       wildcardPatterns = [], markedForRemoval = {}, symbols = 2\<rparr>"
    by (simp add: runOps_def add_def noOptions_def createListenerStore_def updateStats_def
        getMapForPattern_def setMapForPattern_def hasWildcard_def sortByPriority_def hasId_def
        getOrEmpty_def)
  have mi: "(''y'', [?i]) \<in> set (getAll None ?s)"
    unfolding st by (simp add: getAll_def mapListeners_def numberDivide_def)
  have mj: "(''x'', [?j]) \<in> set (getAll None ?s)"
    unfolding st by (simp add: getAll_def mapListeners_def numberDivide_def)
  have 1: "\<exists>l \<in> set (storedListeners ?s). lid l = 1 \<and> executionCount l = 0 \<and>
      Nearest 0 \<noteq> numberDivide (totalDuration l) (executionCount l)"
    using getAll_avgDuration [OF mi, of ?i] by auto
  have 2: "\<exists>l \<in> set (storedListeners ?s). lid l = 0 \<and> executionCount l = 2 \<and>
      Nearest (7 / 2) = numberDivide (totalDuration l) (executionCount l)"
    using getAll_avgDuration [OF mj, of ?j] by auto
  from mi mj 1 2 show ?thesis by blast
qed

end
